theory Spec2Isabelle
  imports Main "HOL-Library.Sublist" "HOL-Library.AList"
begin

section \<open>The Markdown refresh queue of the cmdlet updater\<close>

text \<open>
  A shallow embedding of \<^verbatim>\<open>services/markdown.service.js\<close> (class \<^verbatim>\<open>MarkdownService\<close>).
  The service discovers Markdown files below a root, filters them by an ignore list and
  by applicability tags, pushes one task per file on a single-worker queue, and the
  worker \<^verbatim>\<open>processQueue\<close> copies the file into a temporary folder, runs the external
  refresh tool on the copy and reports the tool's log.

  Every collaborator the service talks to (file system, installer, refresh tool, path
  module, id generator) is a field of the record \<open>env\<close>. A collaborator whose answer may
  change over time receives the trace of all calls made so far, so that a theorem
  quantified over \<open>env\<close> holds whatever the collaborators answer.
\<close>

subsection \<open>Data\<close>

text \<open>
  The text a regular expression scans, and the tags looked for in it, are JavaScript
  strings: sequences of UTF-16 code units, here natural numbers, so that every
  character a file can hold exists, the line and paragraph separators U+2028 and
  U+2029 among them. \<open>js\<close> writes an 8-bit literal as such a string. Paths, names and
  messages are only compared and joined; they stay \<open>string\<close>.
\<close>

type_synonym jsstring = "nat list"

definition js :: "string \<Rightarrow> jsstring" where
  "js s = map of_char s"

text \<open>A document group, as the caller passes it: \<^verbatim>\<open>{ name, path, metaTags }\<close>.\<close>

record DocumentGroup =
  name :: string
  path :: string
  metaTags :: "jsstring list"

text \<open>
  A queue task, \<^verbatim>\<open>{ file, doc }\<close>. The field \<^verbatim>\<open>file\<close> is \<open>file_path\<close> here, since
  \<^verbatim>\<open>file\<close> is a keyword of the theory language.
\<close>

record task =
  file_path :: string
  doc :: DocumentGroup

text \<open>
  A JavaScript \<^verbatim>\<open>Error\<close> object with its message. \<^verbatim>\<open>new Error(err)\<close> of an error
  takes \<^verbatim>\<open>String(err)\<close> as the new message.
\<close>

datatype error = Error string

fun toString :: "error \<Rightarrow> string" where
  "toString (Error m) = ''Error: '' @ m"

definition new_Error :: "error \<Rightarrow> error" where
  "new_Error err = Error (toString err)"

text \<open>
  The directory tree that \<^verbatim>\<open>fs.readdir\<close> and \<^verbatim>\<open>fs.stat\<close> show below a root:
  a plain file, a directory with its named entries, or an entry whose \<^verbatim>\<open>stat\<close> or
  \<^verbatim>\<open>readdir\<close> rejects.
\<close>

datatype fsnode = File | Dir "(string \<times> fsnode) list" | Failing error

text \<open>The calls the service makes to its collaborators, in the order they are made.\<close>

datatype event =
    InstallDependencies string
  | EnsureDir string
  | Copy string string
  | UpdateMarkdown string string
  | EnsureFile string
  | ReadFile string
  | Dispose
  | SaveInFs
  | PathExists string
  | Remove string
  | ParseAll

text \<open>
  The collaborators. \<open>markdownErrors\<close> lives in \<^verbatim>\<open>../constants/errors\<close>; its three
  messages are taken as parameters. \<open>fs_ensureFile\<close> resolves with no value, as
  fs-extra's does. Console output is not part of the trace.
\<close>

record env =
  ignoreFiles :: "string list"
  path_resolve :: "string list \<Rightarrow> string"
  path_basename :: "string \<Rightarrow> string"
  fs_tree :: "string \<Rightarrow> fsnode"
  fs_readFileSync :: "string \<Rightarrow> error + jsstring"
  CANT_CREATE_TEMP_FOLDER :: string
  CANT_COPY_MD_FILE :: string
  CANT_OPEN_LOG_FILE :: string
  shortId :: "nat \<Rightarrow> string"
  cds_installDependencies :: "event list \<Rightarrow> string \<Rightarrow> error option"
  fs_ensureDir :: "event list \<Rightarrow> string \<Rightarrow> error option"
  fs_copy :: "event list \<Rightarrow> string \<Rightarrow> string \<Rightarrow> error option"
  ps_updateMarkdown :: "event list \<Rightarrow> string \<Rightarrow> string \<Rightarrow> error + string"
  fs_ensureFile :: "event list \<Rightarrow> string \<Rightarrow> error option"
  fs_readFile :: "event list \<Rightarrow> string \<Rightarrow> error + string"
  fs_remove :: "event list \<Rightarrow> string \<Rightarrow> error option"

subsection \<open>The Log Store\<close>

text \<open>
  Modelled from the spec: the Log Store (\<^verbatim>\<open>logStoreService\<close>) is not among the sources.
  Section 6 of the spec gives the contract the service consumes. The store keeps the
  temp folders as a mapping from a group name to a list of paths (a JavaScript \<^verbatim>\<open>Map\<close>:
  an association list in insertion order), an error channel and a log channel.
\<close>

record logStore =
  tempFolders :: "(string \<times> string list) list"
  errors :: "(error \<times> string) list"
  logs :: "(string \<times> string) list"

text \<open>
  Modelled from the spec: \<^verbatim>\<open>getAllTempFolders()\<close> of the missing Log Store, the mapping
  from a group name to its list of paths.
\<close>

definition getAllTempFolders :: "logStore \<Rightarrow> (string \<times> string list) list" where
  "getAllTempFolders ls = tempFolders ls"

text \<open>
  Modelled from the spec: \<^verbatim>\<open>addTempFolder(path, name)\<close> of the missing Log Store
  registers the path under the name, behind the paths the name already has.
\<close>

definition addTempFolder :: "string \<Rightarrow> string \<Rightarrow> logStore \<Rightarrow> logStore" where
  "addTempFolder tempFolderPath n ls =
     ls\<lparr>tempFolders :=
          AList.update n
            ((case map_of (tempFolders ls) n of None \<Rightarrow> [] | Some ps \<Rightarrow> ps) @ [tempFolderPath])
            (tempFolders ls)\<rparr>"

text \<open>
  Modelled from the spec: \<^verbatim>\<open>addError(err, name)\<close> of the missing Log Store appends to
  the error channel.
\<close>

definition addError :: "error \<Rightarrow> string \<Rightarrow> logStore \<Rightarrow> logStore" where
  "addError err n ls = ls\<lparr>errors := errors ls @ [(err, n)]\<rparr>"

text \<open>
  Modelled from the spec: \<^verbatim>\<open>addLog(content, name)\<close> of the missing Log Store appends to
  the log channel.
\<close>

definition addLog :: "string \<Rightarrow> string \<Rightarrow> logStore \<Rightarrow> logStore" where
  "addLog content n ls = ls\<lparr>logs := logs ls @ [(content, n)]\<rparr>"

subsection \<open>The state of the service\<close>

text \<open>
  \<open>installedDependencies\<close> is the field of the service; \<open>store\<close> is the Log Store;
  \<open>trace\<close> holds the collaborator calls so far; \<open>ids\<close> counts the calls of
  \<^verbatim>\<open>shortId()\<close>; \<open>unhandled\<close> collects the errors thrown by the \<^verbatim>\<open>async\<close> event
  handlers, whose promises nobody awaits.
\<close>

record world =
  installedDependencies :: "string list"
  store :: logStore
  trace :: "event list"
  ids :: nat
  unhandled :: "error list"

definition emit :: "event list \<Rightarrow> world \<Rightarrow> world" where
  "emit es s = s\<lparr>trace := trace s @ es\<rparr>"

text \<open>The state the constructor leaves, over an empty Log Store.\<close>

definition constructed :: world where
  "constructed =
     \<lparr>installedDependencies = [],
      store = \<lparr>tempFolders = [], errors = [], logs = []\<rparr>,
      trace = [], ids = 0, unhandled = []\<rparr>"

subsection \<open>Discovery: \<^verbatim>\<open>_getFolderFiles\<close> and \<^verbatim>\<open>_getMdFiles\<close>\<close>

text \<open>
  The two methods are written without their leading underscore.
  \<^verbatim>\<open>_getFolderFiles\<close> reads the directory and folds over its entries with an
  accumulated \<open>result\<close>; a directory entry is listed recursively, a rejection of
  \<^verbatim>\<open>readdir\<close> or \<^verbatim>\<open>stat\<close> rejects the whole listing.
\<close>

fun getFolderFiles :: "env \<Rightarrow> string \<Rightarrow> fsnode \<Rightarrow> error + string list"
and reduceFiles :: "env \<Rightarrow> string \<Rightarrow> (string \<times> fsnode) list \<Rightarrow> string list \<Rightarrow> error + string list"
where
  "getFolderFiles e folderPath (Dir files) = reduceFiles e folderPath files []"
| "getFolderFiles e folderPath File = Inl (Error ''ENOTDIR'')"
| "getFolderFiles e folderPath (Failing err) = Inl err"
| "reduceFiles e folderPath [] result = Inr result"
| "reduceFiles e folderPath ((filePath, node) # files) result =
     (let absolute = path_resolve e [folderPath, filePath] in
      case node of
        Failing err \<Rightarrow> Inl err
      | Dir sub \<Rightarrow>
          (case getFolderFiles e absolute (Dir sub) of
             Inl err \<Rightarrow> Inl err
           | Inr subDirFiles \<Rightarrow> reduceFiles e folderPath files (result @ subDirFiles))
      | File \<Rightarrow> reduceFiles e folderPath files (result @ [absolute]))"

definition mdExt :: string where
  "mdExt = ''.md''"

definition getMdFiles :: "env \<Rightarrow> string \<Rightarrow> error + string list" where
  "getMdFiles e p =
     (case getFolderFiles e p (fs_tree e p) of
        Inl err \<Rightarrow> Inl err
      | Inr allFiles \<Rightarrow> Inr (filter (\<lambda>f. suffix mdExt f) allFiles))"

subsection \<open>The filter of \<^verbatim>\<open>addMdFilesInQueue\<close>\<close>

text \<open>
  \<^verbatim>\<open>metaTagRegex = /(?<=applicable: ).+/gmu\<close>. \<^verbatim>\<open>content.match(metaTagRegex)\<close> is
  \<^verbatim>\<open>null\<close> or the list of all matches, of which the code reads \<^verbatim>\<open>groups[0]\<close>: the
  match at the least start index. A match starts where the twelve characters before it
  are the marker and the character at it is not a line terminator, and runs to the end
  of the line. Without the flag \<^verbatim>\<open>s\<close> the dot stops at ECMAScript's four line
  terminators: LF, CR, U+2028 and U+2029. With the flag \<^verbatim>\<open>u\<close> the dot reads a surrogate
  pair as one character; neither half of a pair is a line terminator and the marker
  ends in a space, so the match is the same run of code units.
\<close>

definition marker :: jsstring where
  "marker = js ''applicable: ''"

definition lineTerminator :: "nat \<Rightarrow> bool" where
  "lineTerminator c = (c = 0x000A \<or> c = 0x000D \<or> c = 0x2028 \<or> c = 0x2029)"

fun execFrom :: "jsstring \<Rightarrow> jsstring \<Rightarrow> jsstring option" where
  "execFrom seen [] = None"
| "execFrom seen (c # cs) =
     (if suffix marker seen \<and> \<not> lineTerminator c
      then Some (takeWhile (\<lambda>x. \<not> lineTerminator x) (c # cs))
      else execFrom (seen @ [c]) cs)"

definition firstMatch :: "jsstring \<Rightarrow> jsstring option" where
  "firstMatch content = execFrom [] content"

definition isFileIgnore :: "env \<Rightarrow> string \<Rightarrow> bool" where
  "isFileIgnore e fileName =
     (path_resolve e [fileName] \<in> set (map (\<lambda>f. path_resolve e [f]) (ignoreFiles e)))"

text \<open>
  The loop over \<^verbatim>\<open>doc.metaTags\<close>: the first tag found in \<^verbatim>\<open>groups[0]\<close> returns true.
  \<^verbatim>\<open>indexOf\<close> finds a tag where its code units stand in a row.
\<close>

fun someTagIn :: "jsstring list \<Rightarrow> jsstring \<Rightarrow> bool" where
  "someTagIn [] g = False"
| "someTagIn (metaTag # tags) g = (if sublist metaTag g then True else someTagIn tags g)"

text \<open>
  \<^verbatim>\<open>isContainTag\<close>, with the files it reads: the first component lists the paths given
  to \<^verbatim>\<open>fs.readFileSync\<close>, the second is the value returned or the error thrown.
\<close>

definition isContainTag :: "env \<Rightarrow> DocumentGroup \<Rightarrow> string \<Rightarrow> string list \<times> (error + bool)" where
  "isContainTag e d filePath =
     (if length (metaTags d) = 0 then ([], Inr True)
      else
        (case fs_readFileSync e filePath of
           Inl err \<Rightarrow> ([filePath], Inl err)
         | Inr content \<Rightarrow>
             (case firstMatch content of
                None \<Rightarrow> ([filePath], Inr False)
              | Some g \<Rightarrow> ([filePath], Inr (someTagIn (metaTags d) g)))))"

text \<open>
  \<^verbatim>\<open>.filter((fn) => !isFileIgnore(fn) && isContainTag(fn))\<close>: the conjunction is
  short-circuit, and an error thrown by the callback ends the filter.
\<close>

fun filterFiles :: "env \<Rightarrow> DocumentGroup \<Rightarrow> string list \<Rightarrow> string list \<times> (error + string list)" where
  "filterFiles e d [] = ([], Inr [])"
| "filterFiles e d (fn # fns) =
     (if isFileIgnore e fn then filterFiles e d fns
      else
        (case isContainTag e d fn of
           (rd, Inl err) \<Rightarrow> (rd, Inl err)
         | (rd, Inr keep) \<Rightarrow>
             (case filterFiles e d fns of
                (rds, Inl err) \<Rightarrow> (rd @ rds, Inl err)
              | (rds, Inr kept) \<Rightarrow> (rd @ rds, Inr (if keep then fn # kept else kept)))))"

text \<open>
  \<^verbatim>\<open>addMdFilesInQueue\<close>: the files read while filtering, and the tasks pushed on the
  queue in push order (or the error that rejects the call).
\<close>

definition addMdFilesInQueue :: "env \<Rightarrow> DocumentGroup \<Rightarrow> string list \<times> (error + task list)" where
  "addMdFilesInQueue e d =
     (case getMdFiles e (path d) of
        Inl err \<Rightarrow> ([], Inl err)
      | Inr found \<Rightarrow>
          (case filterFiles e d found of
             (rds, Inl err) \<Rightarrow> (rds, Inl err)
           | (rds, Inr mdFiles) \<Rightarrow> (rds, Inr (map (\<lambda>f. \<lparr>file_path = f, doc = d\<rparr>) mdFiles))))"

subsection \<open>The worker: \<^verbatim>\<open>processQueue\<close>\<close>

text \<open>
  What a task ends with. \<^verbatim>\<open>cb(null, '')\<close> is \<open>Cb_result EmptyString\<close>,
  \<^verbatim>\<open>cb(null, { result, doc })\<close> is \<open>Cb_result (LogResult result doc)\<close>, \<^verbatim>\<open>cb(err, null)\<close>
  is \<open>Cb_error err\<close>. \<open>No_callback err\<close> is the case in which the promise of
  \<^verbatim>\<open>processQueue\<close> rejects with \<open>err\<close> before any call of \<^verbatim>\<open>cb\<close>.
\<close>

datatype result = EmptyString | LogResult string DocumentGroup

datatype outcome = Cb_error error | Cb_result result | No_callback error

text \<open>The path separator written in the template strings: one backslash.\<close>

definition sep :: string where
  "sep = [CHR 0x5C]"

text \<open>
  Lines 119 to 123: the name is pushed on \<open>installedDependencies\<close>, then the installer
  is called and awaited outside any \<^verbatim>\<open>try\<close> or \<^verbatim>\<open>of\<close>. The second component is the
  installer's rejection, if any.
\<close>

definition installStep :: "env \<Rightarrow> world \<Rightarrow> string \<Rightarrow> world \<times> error option" where
  "installStep e s n =
     (if n \<in> set (installedDependencies s) then (s, None)
      else
        (let s1 = s\<lparr>installedDependencies := installedDependencies s @ [n]\<rparr>
         in (emit [InstallDependencies n] s1, cds_installDependencies e (trace s1) n)))"

text \<open>
  \<^verbatim>\<open>getTempFolderName\<close>: the value of \<^verbatim>\<open>tempFolders.get(doc.name)\<close>, after a path
  was registered when the name had none.
\<close>

definition getTempFolderName :: "env \<Rightarrow> world \<Rightarrow> DocumentGroup \<Rightarrow> world \<times> string list option" where
  "getTempFolderName e s d =
     (if map_of (getAllTempFolders (store s)) (name d) = None
      then
        (let tempFolderPath = path d @ sep @ shortId e (ids s);
             s1 = s\<lparr>ids := ids s + 1, store := addTempFolder tempFolderPath (name d) (store s)\<rparr>
         in (s1, map_of (getAllTempFolders (store s1)) (name d)))
      else (s, map_of (getAllTempFolders (store s)) (name d)))"

text \<open>
  The first element of a JavaScript array inside a template string or as an argument:
  \<^verbatim>\<open>undefined\<close> of an empty array is rendered by its name.
\<close>

definition first :: "string list \<Rightarrow> string" where
  "first ps = (case ps of [] \<Rightarrow> ''undefined'' | p # _ \<Rightarrow> p)"

text \<open>The two paths the worker builds: the copy's and the log file's.\<close>

definition distFilePath :: "env \<Rightarrow> string \<Rightarrow> string \<Rightarrow> string" where
  "distFilePath e srcFilePath tempFolderPath = tempFolderPath @ sep @ path_basename e srcFilePath"

definition logFilePath :: "env \<Rightarrow> world \<Rightarrow> string \<Rightarrow> string" where
  "logFilePath e s tempFolderPath = tempFolderPath @ sep @ shortId e (ids s) @ ''.log''"

text \<open>
  \<^verbatim>\<open>copyMdInTempFolder\<close>: \<^verbatim>\<open>fs.ensureDir\<close> on every call, then \<^verbatim>\<open>fs.copy\<close>; each
  rejection is replaced by the error of \<open>markdownErrors\<close>.
\<close>

definition copyMdInTempFolder :: "env \<Rightarrow> world \<Rightarrow> string \<Rightarrow> string \<Rightarrow> world \<times> (error + string)" where
  "copyMdInTempFolder e s srcFilePath tempFolderPath =
     (let dist = distFilePath e srcFilePath tempFolderPath;
          s1 = emit [EnsureDir tempFolderPath] s
      in case fs_ensureDir e (trace s) tempFolderPath of
           Some err \<Rightarrow> (s1, Inl (Error (CANT_CREATE_TEMP_FOLDER e)))
         | None \<Rightarrow>
             (let s2 = emit [Copy srcFilePath dist] s1
              in case fs_copy e (trace s1) srcFilePath dist of
                   Some err \<Rightarrow> (s2, Inl (Error (CANT_COPY_MD_FILE e)))
                 | None \<Rightarrow> (s2, Inr dist)))"

text \<open>
  \<^verbatim>\<open>getLogFileContent\<close>. \<^verbatim>\<open>fs.ensureFile\<close> resolves with no value, so the test
  \<^verbatim>\<open>result || err\<close> is a test of \<^verbatim>\<open>err\<close>. A rejected \<^verbatim>\<open>fs.readFile\<close> rejects the call
  with its own error.
\<close>

definition getLogFileContent :: "env \<Rightarrow> world \<Rightarrow> string \<Rightarrow> world \<times> (error + string)" where
  "getLogFileContent e s logFile =
     (let s1 = emit [EnsureFile logFile] s
      in case fs_ensureFile e (trace s) logFile of
           Some err \<Rightarrow> (s1, Inl (Error (CANT_OPEN_LOG_FILE e)))
         | None \<Rightarrow>
             (let s2 = emit [ReadFile logFile] s1
              in case fs_readFile e (trace s1) logFile of
                   Inl err \<Rightarrow> (s2, Inl err)
                 | Inr content \<Rightarrow> (s2, Inr content)))"

text \<open>Lines 139 to 170 of \<^verbatim>\<open>processQueue\<close>, from the resolved temp folder on.\<close>

definition processFile :: "env \<Rightarrow> world \<Rightarrow> task \<Rightarrow> string \<Rightarrow> world \<times> outcome" where
  "processFile e s t tempFolderPath =
     (let logFile = logFilePath e s tempFolderPath;
          s1 = s\<lparr>ids := ids s + 1\<rparr>
      in case copyMdInTempFolder e s1 (file_path t) tempFolderPath of
           (s2, Inl err) \<Rightarrow> (s2, Cb_error err)
         | (s2, Inr copied) \<Rightarrow>
             (let s3 = emit [UpdateMarkdown copied logFile] s2
              in case ps_updateMarkdown e (trace s2) copied logFile of
                   Inl err \<Rightarrow> (s3\<lparr>store := addError err (name (doc t)) (store s3)\<rparr>, Cb_result EmptyString)
                 | Inr printed \<Rightarrow>
                     (case getLogFileContent e s3 logFile of
                        (s4, Inl err) \<Rightarrow> (s4, Cb_error err)
                      | (s4, Inr content) \<Rightarrow> (s4, Cb_result (LogResult content (doc t))))))"

text \<open>
  \<^verbatim>\<open>processQueue\<close>. A rejected install leaves the promise rejected and \<^verbatim>\<open>cb\<close> uncalled.
  Destructuring \<^verbatim>\<open>[tempFolderPath]\<close> from \<^verbatim>\<open>undefined\<close> throws a \<^verbatim>\<open>TypeError\<close>, which
  rejects the promise as well.
\<close>

definition processQueue :: "env \<Rightarrow> world \<Rightarrow> task \<Rightarrow> world \<times> outcome" where
  "processQueue e s t =
     (case installStep e s (name (doc t)) of
        (s1, Some err) \<Rightarrow> (s1, No_callback err)
      | (s1, None) \<Rightarrow>
          (case getTempFolderName e s1 (doc t) of
             (s2, None) \<Rightarrow> (s2, No_callback (Error ''TypeError''))
           | (s2, Some folders) \<Rightarrow> processFile e s2 t (first folders)))"

subsection \<open>The observers and the queue\<close>

text \<open>
  \<^verbatim>\<open>queueFinishHandler({ result, doc })\<close>: destructuring the string \<^verbatim>\<open>''\<close> gives an
  undefined \<^verbatim>\<open>result\<close>; an empty \<^verbatim>\<open>result\<close> is falsy as well.
\<close>

definition queueFinishHandler :: "world \<Rightarrow> result \<Rightarrow> world" where
  "queueFinishHandler s r =
     (case r of
        EmptyString \<Rightarrow> s
      | LogResult res d \<Rightarrow> (if res = [] then s else s\<lparr>store := addLog res (name d) (store s)\<rparr>))"

text \<open>\<^verbatim>\<open>queueFailedHandler\<close> is \<^verbatim>\<open>async\<close> and throws \<^verbatim>\<open>new Error(err)\<close>.\<close>

definition queueFailedHandler :: "world \<Rightarrow> error \<Rightarrow> world" where
  "queueFailedHandler s err = s\<lparr>unhandled := unhandled s @ [new_Error err]\<rparr>"

text \<open>
  Modelled from the spec: the queue is the library better-queue with its defaults, which
  is not among the sources. Section 4.3 of the spec gives its contract: first in first
  out, one task in flight, the next task started when the callback of the previous one
  has fired, the finish observer called with the result and the failed observer with
  the error. A task whose callback never fires keeps the worker busy for ever: the
  tasks behind it stay pending. The rejection of an \<^verbatim>\<open>async\<close> handler or worker is
  collected in \<open>unhandled\<close> and the queue goes on, as section 7 of the spec has it.
\<close>

datatype run = Drained world | Stalled world "task list"

text \<open>
  Modelled from the spec: the dispatch loop of the missing queue library over the tasks
  pushed, in push order.
\<close>

fun runQueue :: "env \<Rightarrow> world \<Rightarrow> task list \<Rightarrow> run" where
  "runQueue e s [] = Drained s"
| "runQueue e s (t # ts) =
     (case processQueue e s t of
        (s1, Cb_result r) \<Rightarrow> runQueue e (queueFinishHandler s1 r) ts
      | (s1, Cb_error err) \<Rightarrow> runQueue e (queueFailedHandler s1 err) ts
      | (s1, No_callback err) \<Rightarrow> Stalled (s1\<lparr>unhandled := unhandled s1 @ [err]\<rparr>) ts)"

subsection \<open>\<^verbatim>\<open>queueEmptyHandler\<close>\<close>

text \<open>
  The loop over the first path of every group. \<^verbatim>\<open>fs.pathExists(path)\<close> returns a
  promise, which is truthy whatever it resolves to, so \<^verbatim>\<open>fs.remove\<close> is called for
  every path. A rejected removal throws \<^verbatim>\<open>new Error(fsError)\<close> out of the handler:
  the second component. \<^verbatim>\<open>parseAll\<close> is called when the loop has ended.
\<close>

fun removeAllPaths :: "env \<Rightarrow> world \<Rightarrow> string list \<Rightarrow> world \<times> error option" where
  "removeAllPaths e s [] = (emit [ParseAll] s, None)"
| "removeAllPaths e s (p # ps) =
     (let s1 = emit [PathExists p] s;
          s2 = emit [Remove p] s1
      in case fs_remove e (trace s1) p of
           Some fsError \<Rightarrow> (s2, Some (new_Error fsError))
         | None \<Rightarrow> removeAllPaths e s2 ps)"

definition queueEmptyHandler :: "env \<Rightarrow> world \<Rightarrow> world \<times> error option" where
  "queueEmptyHandler e s =
     (let s1 = emit [Dispose] s;
          s2 = emit [SaveInFs] s1;
          folders = map (\<lambda>ps. first ps) (map snd (getAllTempFolders (store s2)))
      in removeAllPaths e s2 folders)"

subsection \<open>Observations on a run\<close>

text \<open>The state a run of the queue ends in, drained or stalled.\<close>

fun finalWorld :: "run \<Rightarrow> world" where
  "finalWorld (Drained s) = s"
| "finalWorld (Stalled s ts) = s"

text \<open>
  The tickets whose callback fired, in the order in which the queue emitted their
  \<^verbatim>\<open>finish\<close> or \<^verbatim>\<open>failed\<close> event, each with the outcome it carried.
\<close>

fun fired :: "env \<Rightarrow> world \<Rightarrow> task list \<Rightarrow> (task \<times> outcome) list" where
  "fired e s [] = []"
| "fired e s (t # ts) =
     (case processQueue e s t of
        (s1, Cb_result r) \<Rightarrow> (t, Cb_result r) # fired e (queueFinishHandler s1 r) ts
      | (s1, Cb_error err) \<Rightarrow> (t, Cb_error err) # fired e (queueFailedHandler s1 err) ts
      | (s1, No_callback err) \<Rightarrow> [])"

text \<open>The tickets that finished with a non-empty log, each with that log.\<close>

fun loggedTasks :: "(task \<times> outcome) list \<Rightarrow> (task \<times> string) list" where
  "loggedTasks [] = []"
| "loggedTasks ((t, Cb_result (LogResult content d)) # xs) =
     (if content = [] then loggedTasks xs else (t, content) # loggedTasks xs)"
| "loggedTasks ((t, oc) # xs) = loggedTasks xs"

text \<open>The paths given to \<^verbatim>\<open>fs.ensureDir\<close> and to \<^verbatim>\<open>fs.remove\<close>, in call order.\<close>

fun ensureDirCalls :: "event list \<Rightarrow> string list" where
  "ensureDirCalls [] = []"
| "ensureDirCalls (EnsureDir p # es) = p # ensureDirCalls es"
| "ensureDirCalls (ev # es) = ensureDirCalls es"

fun removeCalls :: "event list \<Rightarrow> string list" where
  "removeCalls [] = []"
| "removeCalls (Remove p # es) = p # removeCalls es"
| "removeCalls (ev # es) = removeCalls es"

text \<open>
  The calls the loop of \<^verbatim>\<open>queueEmptyHandler\<close> makes for a list of paths when it gets
  through all of them: \<^verbatim>\<open>fs.pathExists\<close>, then \<^verbatim>\<open>fs.remove\<close>, path by path.
\<close>

definition removalTrace :: "string list \<Rightarrow> event list" where
  "removalTrace ps = concat (map (\<lambda>p. [PathExists p, Remove p]) ps)"

subsection \<open>The applicability declaration, in words\<close>

text \<open>
  The characters that end a line, written out on their own: line feed, carriage
  return, line separator and paragraph separator.
\<close>

definition lineBreak :: "nat set" where
  "lineBreak = {0x000A, 0x000D, 0x2028, 0x2029}"

text \<open>
  The claim as it stands speaks of "the applicability marker line" and of "the
  declaration text following that marker". \<open>marker_line_declaration content d\<close> says
  that \<open>content\<close> has a line that begins with the marker and that \<open>d\<close> is the rest of
  that line.
\<close>

definition marker_line_declaration :: "jsstring \<Rightarrow> jsstring \<Rightarrow> bool" where
  "marker_line_declaration content d \<longleftrightarrow>
     (\<exists>pre rest. content = pre @ marker @ d @ rest
        \<and> (pre = [] \<or> last pre \<in> lineBreak)
        \<and> set d \<inter> lineBreak = {} \<and> (rest = [] \<or> hd rest \<in> lineBreak))"

text \<open>
  What the code reads instead. \<open>spec_declaration content d\<close> says that \<open>d\<close> is the
  text following the first marker that has text after it on its line: \<open>content\<close>
  holds the marker, \<open>d\<close> follows it, is not empty and runs to the end of its line, and
  no marker followed by a character of its line stands earlier in the file.
  \<open>spec_keeps\<close> is the amended condition of the filter: some requested tag is a
  substring of that text.
\<close>

definition spec_declaration :: "jsstring \<Rightarrow> jsstring \<Rightarrow> bool" where
  "spec_declaration content d \<longleftrightarrow>
     (\<exists>pre rest. content = pre @ marker @ d @ rest \<and> d \<noteq> []
        \<and> set d \<inter> lineBreak = {} \<and> (rest = [] \<or> hd rest \<in> lineBreak)
        \<and> (\<forall>pre' c r. content = pre' @ marker @ c # r \<and> c \<notin> lineBreak
              \<longrightarrow> length pre \<le> length pre'))"

definition spec_keeps :: "jsstring list \<Rightarrow> jsstring \<Rightarrow> bool" where
  "spec_keeps tags content \<longleftrightarrow> (\<exists>d. spec_declaration content d \<and> (\<exists>t\<in>set tags. sublist t d))"

subsection \<open>A sample group and sample collaborators\<close>

text \<open>
  The group of the spec's scenario: two Markdown files, of which the first declares
  "Exchange Online" and the second "On-Premises" only, a text file and an ignored
  file. The sample collaborators all succeed; the log read back names the copy the
  tool was run on.
\<close>

definition sample_doc :: DocumentGroup where
  "sample_doc = \<lparr>name = ''Get-Foo'', path = ''/docs'', metaTags = [js ''Exchange Online'']\<rparr>"

definition sample_env :: env where
  "sample_env =
     \<lparr>ignoreFiles = [''/docs/sub/skip.md''],
      path_resolve = (\<lambda>ps. case ps of [p] \<Rightarrow> p | [a, b] \<Rightarrow> a @ ''/'' @ b | _ \<Rightarrow> []),
      path_basename = (\<lambda>p. rev (takeWhile (\<lambda>c. c \<noteq> CHR ''/'') (rev p))),
      fs_tree = (\<lambda>p. Dir [(''file1.md'', File), (''file2.md'', File), (''notes.txt'', File),
                          (''sub'', Dir [(''skip.md'', File)])]),
      fs_readFileSync = (\<lambda>p.
         if p = ''/docs/file1.md''
         then Inr (js ''---'' @ [0x000A] @ js ''applicable: Exchange Online, Exchange Server''
                   @ [0x000A] @ js ''title: Get-Foo'')
         else if p = ''/docs/file2.md'' then Inr (js ''applicable: On-Premises'' @ [0x000A])
         else Inl (Error ''ENOENT'')),
      CANT_CREATE_TEMP_FOLDER = ''CANT_CREATE_TEMP_FOLDER'',
      CANT_COPY_MD_FILE = ''CANT_COPY_MD_FILE'',
      CANT_OPEN_LOG_FILE = ''CANT_OPEN_LOG_FILE'',
      shortId = (\<lambda>n. replicate (Suc n) CHR ''x''),
      cds_installDependencies = (\<lambda>tr n. None),
      fs_ensureDir = (\<lambda>tr p. None),
      fs_copy = (\<lambda>tr src dst. None),
      ps_updateMarkdown = (\<lambda>tr f l. Inr ''updated''),
      fs_ensureFile = (\<lambda>tr p. None),
      fs_readFile = (\<lambda>tr p.
         case rev tr of
           EnsureFile _ # UpdateMarkdown copied _ # _ \<Rightarrow> Inr (''log of '' @ copied)
         | _ \<Rightarrow> Inr []),
      fs_remove = (\<lambda>tr p. None)\<rparr>"

definition task1 :: task where
  "task1 = \<lparr>file_path = ''/docs/file1.md'', doc = sample_doc\<rparr>"

definition task2 :: task where
  "task2 = \<lparr>file_path = ''/docs/file2.md'', doc = sample_doc\<rparr>"

subsection \<open>Sample states\<close>

text \<open>
  The states the first sample task goes through from the constructed service: after the
  install step, after the temp folder was registered, and after the task has finished
  and its log was appended. The variants of the sample collaborators each fail in one
  place: the copy, the refresh tool for the first file, the log (empty), the installer.
\<close>

definition sample_folder :: string where
  "sample_folder = ''/docs'' @ sep @ ''x''"

definition after_install :: world where
  "after_install =
     constructed\<lparr>installedDependencies := [''Get-Foo''], trace := [InstallDependencies ''Get-Foo'']\<rparr>"

definition with_folder :: world where
  "with_folder =
     after_install\<lparr>ids := 1,
                   store := \<lparr>tempFolders = [(''Get-Foo'', [sample_folder])], errors = [], logs = []\<rparr>\<rparr>"

definition after_task1 :: world where
  "after_task1 =
     with_folder\<lparr>ids := 2,
        trace := [InstallDependencies ''Get-Foo'', EnsureDir sample_folder,
                  Copy ''/docs/file1.md'' (sample_folder @ sep @ ''file1.md''),
                  UpdateMarkdown (sample_folder @ sep @ ''file1.md'') (sample_folder @ sep @ ''xx.log''),
                  EnsureFile (sample_folder @ sep @ ''xx.log''),
                  ReadFile (sample_folder @ sep @ ''xx.log'')],
        store := \<lparr>tempFolders = [(''Get-Foo'', [sample_folder])], errors = [],
                   logs = [(''log of '' @ sample_folder @ sep @ ''file1.md'', ''Get-Foo'')]\<rparr>\<rparr>"

definition copy_fails_env :: env where
  "copy_fails_env = sample_env\<lparr>fs_copy := (\<lambda>tr src dst. Some (Error ''EACCES''))\<rparr>"

definition tool_fails_env :: env where
  "tool_fails_env =
     sample_env\<lparr>ps_updateMarkdown :=
       (\<lambda>tr f l. if f = sample_folder @ sep @ ''file1.md'' then Inl (Error ''boom'') else Inr ''updated'')\<rparr>"

definition empty_log_env :: env where
  "empty_log_env = sample_env\<lparr>fs_readFile := (\<lambda>tr p. Inr [])\<rparr>"

definition install_fails_env :: env where
  "install_fails_env = sample_env\<lparr>cds_installDependencies := (\<lambda>tr n. Some (Error ''offline''))\<rparr>"

definition remove_fails_env :: env where
  "remove_fails_env = sample_env\<lparr>fs_remove := (\<lambda>tr p. Some (Error ''EBUSY''))\<rparr>"

text \<open>
  A file with two marker lines, of which only the second declares "Exchange Online",
  and collaborators that read this file at every path.
\<close>

definition two_marker_lines :: jsstring where
  "two_marker_lines =
     js ''applicable: On-Premises'' @ [0x000A] @ js ''applicable: Exchange Online''"

definition two_lines_env :: env where
  "two_lines_env = sample_env\<lparr>fs_readFileSync := (\<lambda>p. Inr two_marker_lines)\<rparr>"

section \<open>The filter\<close>

lemma someTagIn_iff: "someTagIn tags g \<longleftrightarrow> (\<exists>t\<in>set tags. sublist t g)"
  by (induction tags) auto

lemma takeWhile_run:
  assumes "\<forall>c\<in>set d. P c" and "rest = [] \<or> \<not> P (hd rest)"
  shows "takeWhile P (d @ rest) = d"
  using assms by (cases rest) (auto simp: takeWhile_append)

lemma execFrom_None_iff:
  "execFrom seen cs = None \<longleftrightarrow>
     \<not> (\<exists>u c r. cs = u @ c # r \<and> suffix marker (seen @ u) \<and> \<not> lineTerminator c)"
proof (induction cs arbitrary: seen)
  case Nil
  then show ?case by simp
next
  case (Cons a cs)
  show ?case
  proof (cases "suffix marker seen \<and> \<not> lineTerminator a")
    case True
    then have "\<exists>u c r. a # cs = u @ c # r \<and> suffix marker (seen @ u) \<and> \<not> lineTerminator c"
      by (intro exI[of _ "[]"] exI[of _ a] exI[of _ cs]) simp
    with True show ?thesis by simp
  next
    case False
    have "(\<exists>u c r. a # cs = u @ c # r \<and> suffix marker (seen @ u) \<and> \<not> lineTerminator c)
       \<longleftrightarrow> (\<exists>u c r. cs = u @ c # r \<and> suffix marker ((seen @ [a]) @ u) \<and> \<not> lineTerminator c)"
      (is "?L \<longleftrightarrow> ?R")
    proof
      assume ?L
      then obtain u c r where h: "a # cs = u @ c # r" "suffix marker (seen @ u)" "\<not> lineTerminator c"
        by blast
      show ?R
      proof (cases u)
        case Nil
        with h False show ?thesis by simp
      next
        case (Cons b u')
        with h have "cs = u' @ c # r" "suffix marker ((seen @ [a]) @ u')" by auto
        with h(3) show ?thesis by blast
      qed
    next
      assume ?R
      then obtain u c r where h: "cs = u @ c # r" "suffix marker ((seen @ [a]) @ u)" "\<not> lineTerminator c"
        by blast
      then have "a # cs = (a # u) @ c # r" "suffix marker (seen @ (a # u))" by auto
      with h(3) show ?L by blast
    qed
    moreover from False have "execFrom seen (a # cs) = execFrom (seen @ [a]) cs" by auto
    ultimately show ?thesis using Cons.IH[of "seen @ [a]"] by (simp only:)
  qed
qed


lemma execFrom_Some_iff:
  "execFrom seen cs = Some d \<longleftrightarrow>
     (\<exists>u rest. cs = u @ d @ rest \<and> suffix marker (seen @ u) \<and> d \<noteq> []
        \<and> (\<forall>c\<in>set d. \<not> lineTerminator c) \<and> (rest = [] \<or> lineTerminator (hd rest))
        \<and> (\<forall>u' c r. cs = u' @ c # r \<and> suffix marker (seen @ u') \<and> \<not> lineTerminator c
              \<longrightarrow> length u \<le> length u'))"
  (is "?E seen cs \<longleftrightarrow> ?S seen cs")
proof (induction cs arbitrary: seen)
  case Nil
  then show ?case by simp
next
  case (Cons a cs)
  show ?case
  proof (cases "suffix marker seen \<and> \<not> lineTerminator a")
    case True
    let ?P = "\<lambda>x. \<not> lineTerminator x"
    have ex: "execFrom seen (a # cs) = Some (takeWhile ?P (a # cs))"
      using True by simp
    show ?thesis
    proof
      assume "?E seen (a # cs)"
      with ex have d: "d = takeWhile ?P (a # cs)" by simp
      have "a # cs = [] @ d @ dropWhile ?P (a # cs)" by (simp add: d)
      moreover have "d \<noteq> []" using True by (simp add: d)
      moreover have "\<forall>c\<in>set d. \<not> lineTerminator c"
        unfolding d by (metis set_takeWhileD)
      moreover have "dropWhile ?P (a # cs) = [] \<or> lineTerminator (hd (dropWhile ?P (a # cs)))"
        by (metis hd_dropWhile)
      ultimately show "?S seen (a # cs)" using True
        by (intro exI[of _ "[]"] exI[of _ "dropWhile ?P (a # cs)"]) simp
    next
      assume "?S seen (a # cs)"
      then obtain u rest where h: "a # cs = u @ d @ rest" "d \<noteq> []"
        "\<forall>c\<in>set d. \<not> lineTerminator c" "rest = [] \<or> lineTerminator (hd rest)"
        and mn: "\<forall>u' c r. a # cs = u' @ c # r \<and> suffix marker (seen @ u') \<and> \<not> lineTerminator c
              \<longrightarrow> length u \<le> length u'"
        by blast
      from mn[rule_format, of "[]" a cs] True have "u = []" by simp
      with h have "takeWhile ?P (a # cs) = d"
        using takeWhile_run[of d ?P rest] by simp
      with ex show "?E seen (a # cs)" by simp
    qed
  next
    case False
    have step: "execFrom seen (a # cs) = execFrom (seen @ [a]) cs"
      using False by auto
    have "?S seen (a # cs) \<longleftrightarrow> ?S (seen @ [a]) cs"
    proof
      assume "?S seen (a # cs)"
      then obtain u rest where h: "a # cs = u @ d @ rest" "suffix marker (seen @ u)" "d \<noteq> []"
        "\<forall>c\<in>set d. \<not> lineTerminator c" "rest = [] \<or> lineTerminator (hd rest)"
        and mn: "\<forall>u' c r. a # cs = u' @ c # r \<and> suffix marker (seen @ u') \<and> \<not> lineTerminator c
              \<longrightarrow> length u \<le> length u'"
        by blast
      have "u \<noteq> []"
      proof
        assume "u = []"
        with h obtain d' where "d = a # d'" by (cases d) auto
        with h(4) \<open>u = []\<close> h(2) False show False by simp
      qed
      then obtain u0 where u: "u = a # u0" using h(1) by (cases u) auto
      have mn': "\<forall>u' c r. cs = u' @ c # r \<and> suffix marker ((seen @ [a]) @ u') \<and> \<not> lineTerminator c
              \<longrightarrow> length u0 \<le> length u'"
      proof (intro allI impI)
        fix u' c r
        assume "cs = u' @ c # r \<and> suffix marker ((seen @ [a]) @ u') \<and> \<not> lineTerminator c"
        then have "a # cs = (a # u') @ c # r \<and> suffix marker (seen @ (a # u')) \<and> \<not> lineTerminator c"
          by simp
        from mn[rule_format, OF this] u show "length u0 \<le> length u'" by simp
      qed
      from h u have "cs = u0 @ d @ rest" "suffix marker ((seen @ [a]) @ u0)" by auto
      with h(3,4,5) mn' show "?S (seen @ [a]) cs" by blast
    next
      assume "?S (seen @ [a]) cs"
      then obtain u rest where h: "cs = u @ d @ rest" "suffix marker ((seen @ [a]) @ u)" "d \<noteq> []"
        "\<forall>c\<in>set d. \<not> lineTerminator c" "rest = [] \<or> lineTerminator (hd rest)"
        and mn: "\<forall>u' c r. cs = u' @ c # r \<and> suffix marker ((seen @ [a]) @ u') \<and> \<not> lineTerminator c
              \<longrightarrow> length u \<le> length u'"
        by blast
      have mn': "\<forall>u' c r. a # cs = u' @ c # r \<and> suffix marker (seen @ u') \<and> \<not> lineTerminator c
              \<longrightarrow> length (a # u) \<le> length u'"
      proof (intro allI impI)
        fix u' c r
        assume A: "a # cs = u' @ c # r \<and> suffix marker (seen @ u') \<and> \<not> lineTerminator c"
        show "length (a # u) \<le> length u'"
        proof (cases u')
          case Nil
          with A False show ?thesis by simp
        next
          case (Cons b u'')
          with A have "cs = u'' @ c # r \<and> suffix marker ((seen @ [a]) @ u'') \<and> \<not> lineTerminator c"
            by simp
          from mn[rule_format, OF this] Cons show ?thesis by simp
        qed
      qed
      from h have "a # cs = (a # u) @ d @ rest" "suffix marker (seen @ (a # u))" by auto
      with h(3,4,5) mn' show "?S seen (a # cs)" by blast
    qed
    with step Cons.IH[of "seen @ [a]"] show ?thesis by (simp only:)
  qed
qed


lemma lineBreak_iff: "c \<in> lineBreak \<longleftrightarrow> lineTerminator c"
  by (simp add: lineBreak_def lineTerminator_def)

lemma spec_declaration_alt:
  "spec_declaration content d \<longleftrightarrow>
     (\<exists>pre rest. content = pre @ marker @ d @ rest \<and> d \<noteq> []
        \<and> (\<forall>c\<in>set d. \<not> lineTerminator c) \<and> (rest = [] \<or> lineTerminator (hd rest))
        \<and> (\<forall>pre' c r. content = pre' @ marker @ c # r \<and> \<not> lineTerminator c
              \<longrightarrow> length pre \<le> length pre'))"
proof -
  have "set d \<inter> lineBreak = {} \<longleftrightarrow> (\<forall>c\<in>set d. \<not> lineTerminator c)"
    by (auto simp: lineBreak_iff)
  then show ?thesis
    unfolding spec_declaration_def by (simp add: lineBreak_iff)
qed

lemma firstMatch_Some_iff: "firstMatch content = Some d \<longleftrightarrow> spec_declaration content d"
proof
  assume "firstMatch content = Some d"
  then obtain u rest where h: "content = u @ d @ rest" "suffix marker u" "d \<noteq> []"
      "\<forall>c\<in>set d. \<not> lineTerminator c" "rest = [] \<or> lineTerminator (hd rest)"
    and mn: "\<forall>u' c r. content = u' @ c # r \<and> suffix marker ([] @ u') \<and> \<not> lineTerminator c
              \<longrightarrow> length u \<le> length u'"
    unfolding firstMatch_def execFrom_Some_iff by auto
  from h(2) obtain pre where u: "u = pre @ marker" by (auto simp: suffix_def)
  have "\<forall>pre' c r. content = pre' @ marker @ c # r \<and> \<not> lineTerminator c
              \<longrightarrow> length pre \<le> length pre'"
  proof (intro allI impI)
    fix pre' c r
    assume "content = pre' @ marker @ c # r \<and> \<not> lineTerminator c"
    then have "content = (pre' @ marker) @ c # r \<and> suffix marker ([] @ (pre' @ marker)) \<and> \<not> lineTerminator c"
      by (simp add: suffix_def)
    from mn[rule_format, OF this] u show "length pre \<le> length pre'" by simp
  qed
  with h u show "spec_declaration content d"
    unfolding spec_declaration_alt by auto
next
  assume "spec_declaration content d"
  then obtain pre rest where h: "content = pre @ marker @ d @ rest" "d \<noteq> []"
      "\<forall>c\<in>set d. \<not> lineTerminator c" "rest = [] \<or> lineTerminator (hd rest)"
    and mn: "\<forall>pre' c r. content = pre' @ marker @ c # r \<and> \<not> lineTerminator c
              \<longrightarrow> length pre \<le> length pre'"
    unfolding spec_declaration_alt by blast
  have "\<forall>u' c r. content = u' @ c # r \<and> suffix marker ([] @ u') \<and> \<not> lineTerminator c
              \<longrightarrow> length (pre @ marker) \<le> length u'"
  proof (intro allI impI)
    fix u' c r
    assume A: "content = u' @ c # r \<and> suffix marker ([] @ u') \<and> \<not> lineTerminator c"
    then obtain pre' where "u' = pre' @ marker" by (auto simp: suffix_def)
    with A mn[rule_format, of pre' c r] show "length (pre @ marker) \<le> length u'" by simp
  qed
  moreover have "content = (pre @ marker) @ d @ rest" "suffix marker ([] @ (pre @ marker))"
    using h(1) by (simp_all add: suffix_def)
  ultimately show "firstMatch content = Some d"
    unfolding firstMatch_def execFrom_Some_iff using h(2,3,4) by blast
qed

lemma firstMatch_no_marker:
  assumes "\<not> sublist marker content"
  shows "firstMatch content = None"
proof -
  have "\<not> (\<exists>u c r. content = u @ c # r \<and> suffix marker ([] @ u) \<and> \<not> lineTerminator c)"
  proof
    assume "\<exists>u c r. content = u @ c # r \<and> suffix marker ([] @ u) \<and> \<not> lineTerminator c"
    then obtain u c r pre where "content = u @ c # r" "u = pre @ marker"
      by (auto simp: suffix_def)
    then have "content = pre @ marker @ (c # r)" by simp
    then have "sublist marker content" unfolding sublist_def by blast
    with assms show False by simp
  qed
  then show ?thesis unfolding firstMatch_def execFrom_None_iff .
qed

lemma filterFiles_no_tags:
  "metaTags d = [] \<Longrightarrow> filterFiles e d fs = ([], Inr (filter (\<lambda>f. \<not> isFileIgnore e f) fs))"
  by (induction fs) (simp_all add: isContainTag_def)

lemma isContainTag_tags:
  assumes "metaTags d \<noteq> []"
  shows "isContainTag e d f =
     ([f], case fs_readFileSync e f of
             Inl err \<Rightarrow> Inl err
           | Inr content \<Rightarrow> Inr (spec_keeps (metaTags d) content))"
proof (cases "fs_readFileSync e f")
  case (Inl err)
  with assms show ?thesis by (simp add: isContainTag_def)
next
  case (Inr content)
  show ?thesis
  proof (cases "firstMatch content")
    case None
    then have "\<not> spec_keeps (metaTags d) content"
      by (simp add: spec_keeps_def flip: firstMatch_Some_iff)
    with None Inr assms show ?thesis by (simp add: isContainTag_def)
  next
    case (Some g)
    then have "spec_keeps (metaTags d) content \<longleftrightarrow> someTagIn (metaTags d) g"
      by (simp add: spec_keeps_def someTagIn_iff flip: firstMatch_Some_iff)
    with Some Inr assms show ?thesis by (simp add: isContainTag_def)
  qed
qed

lemma filterFiles_tags:
  assumes "metaTags d \<noteq> []"
  shows "filterFiles e d fs = (rds, Inr kept) \<Longrightarrow>
     kept = filter (\<lambda>f. \<not> isFileIgnore e f
              \<and> (\<exists>content. fs_readFileSync e f = Inr content \<and> spec_keeps (metaTags d) content)) fs"
proof (induction fs arbitrary: rds kept)
  case Nil
  then show ?case by simp
next
  case (Cons f fs)
  show ?case
  proof (cases "isFileIgnore e f")
    case True
    with Cons show ?thesis by simp
  next
    case False
    with Cons.prems obtain content rds' kept' where
        rd: "fs_readFileSync e f = Inr content"
        and rest: "filterFiles e d fs = (rds', Inr kept')"
        and k: "kept = (if spec_keeps (metaTags d) content then f # kept' else kept')"
      by (auto simp: isContainTag_tags[OF assms] split: sum.splits prod.splits)
    from Cons.IH[OF rest] rd k False show ?thesis by simp
  qed
qed


text \<open>
  Claim C8. When the group's tag list is empty, \<^verbatim>\<open>addMdFilesInQueue\<close> pushes every
  discovered file that ends in \<^verbatim>\<open>.md\<close> and whose resolved path is not a resolved
  path of the ignore list, in discovery order, and reads no file: the list of paths
  given to \<^verbatim>\<open>fs.readFileSync\<close> is empty.
\<close>

theorem empty_tag_list_passes_every_candidate:
  assumes "metaTags d = []"
      and "getFolderFiles e (path d) (fs_tree e (path d)) = Inr allFiles"
  shows "addMdFilesInQueue e d =
           ([], Inr (map (\<lambda>f. \<lparr>file_path = f, doc = d\<rparr>)
                      (filter (\<lambda>f. suffix mdExt f
                                 \<and> path_resolve e [f] \<notin> (\<lambda>g. path_resolve e [g]) ` set (ignoreFiles e))
                         allFiles)))"
  using assms
  by (simp add: addMdFilesInQueue_def getMdFiles_def filterFiles_no_tags isFileIgnore_def
      conj_commute)

lemma sample_listing:
  "getFolderFiles sample_env ''/docs'' (fs_tree sample_env ''/docs'') =
     Inr [''/docs/file1.md'', ''/docs/file2.md'', ''/docs/notes.txt'', ''/docs/sub/skip.md'']"
  by (simp add: sample_env_def)

text \<open>
  The sample group without tags: both Markdown files are pushed, the text file and the
  ignored file are not, and nothing is read.
\<close>

theorem empty_tag_list_witness:
  "metaTags (sample_doc\<lparr>metaTags := []\<rparr>) = []
   \<and> addMdFilesInQueue sample_env (sample_doc\<lparr>metaTags := []\<rparr>) =
       ([], Inr [\<lparr>file_path = ''/docs/file1.md'', doc = sample_doc\<lparr>metaTags := []\<rparr>\<rparr>,
                 \<lparr>file_path = ''/docs/file2.md'', doc = sample_doc\<lparr>metaTags := []\<rparr>\<rparr>])"
proof -
  have h1: "metaTags (sample_doc\<lparr>metaTags := []\<rparr>) = []" by simp
  have h2: "getFolderFiles sample_env (path (sample_doc\<lparr>metaTags := []\<rparr>))
               (fs_tree sample_env (path (sample_doc\<lparr>metaTags := []\<rparr>))) =
            Inr [''/docs/file1.md'', ''/docs/file2.md'', ''/docs/notes.txt'', ''/docs/sub/skip.md'']"
    using sample_listing by (simp add: sample_doc_def)
  have ig: "ignoreFiles sample_env = [''/docs/sub/skip.md'']"
       "\<And>f. path_resolve sample_env [f] = f"
    by (simp_all add: sample_env_def)
  show ?thesis
    using empty_tag_list_passes_every_candidate[OF h1 h2]
    by (simp add: ig mdExt_def suffix_to_prefix)
qed

text \<open>
  Claim C2, amended. When the group's tag list is not empty and \<^verbatim>\<open>addMdFilesInQueue\<close>
  resolves, the pushed files are exactly the candidates (discovered \<^verbatim>\<open>.md\<close> files that
  are not ignored) whose content holds the marker with text after it on its line and of
  which some requested tag is a substring of the text following the first such marker,
  up to the end of its line; they are pushed in discovery order, each paired with the
  group. A file whose content does not hold the marker is never pushed.
\<close>

theorem tag_filter_keeps_declared_files:
  assumes "metaTags d \<noteq> []"
      and "getMdFiles e (path d) = Inr found"
      and "addMdFilesInQueue e d = (rds, Inr tasks)"
  shows "map file_path tasks =
           filter (\<lambda>f. \<not> isFileIgnore e f
                     \<and> (\<exists>content. fs_readFileSync e f = Inr content
                           \<and> spec_keeps (metaTags d) content)) found
       \<and> (\<forall>t\<in>set tasks. doc t = d)
       \<and> (\<forall>f content. fs_readFileSync e f = Inr content \<and> \<not> sublist marker content
             \<longrightarrow> f \<notin> file_path ` set tasks)"
proof -
  from assms(2,3) obtain kept where
      k: "filterFiles e d found = (rds, Inr kept)"
      and t: "tasks = map (\<lambda>f. \<lparr>file_path = f, doc = d\<rparr>) kept"
    by (auto simp: addMdFilesInQueue_def split: sum.splits prod.splits)
  have fp: "map file_path tasks = kept" by (simp add: t comp_def)
  note kept = filterFiles_tags[OF assms(1) k]
  have no_marker: "\<not> spec_keeps (metaTags d) content" if "\<not> sublist marker content" for content
    using firstMatch_no_marker[OF that]
    by (simp add: spec_keeps_def flip: firstMatch_Some_iff)
  have "f \<notin> file_path ` set tasks"
    if "fs_readFileSync e f = Inr content" "\<not> sublist marker content" for f content
  proof
    assume "f \<in> file_path ` set tasks"
    then have "f \<in> set kept" using fp by (metis set_map)
    with kept that(1) have "spec_keeps (metaTags d) content" by auto
    with no_marker[OF that(2)] show False by simp
  qed
  with fp kept t show ?thesis by auto
qed


text \<open>
  The scenario of the spec: of the two files only the one that declares
  "Exchange Online" is pushed.
\<close>

theorem tag_filter_witness:
  "metaTags sample_doc \<noteq> []
   \<and> addMdFilesInQueue sample_env sample_doc = ([''/docs/file1.md'', ''/docs/file2.md''], Inr [task1])
   \<and> map file_path [task1] =
         filter (\<lambda>f. \<not> isFileIgnore sample_env f
                   \<and> (\<exists>content. fs_readFileSync sample_env f = Inr content
                         \<and> spec_keeps (metaTags sample_doc) content))
           [''/docs/file1.md'', ''/docs/file2.md'', ''/docs/sub/skip.md'']"
proof -
  have h1: "metaTags sample_doc \<noteq> []" by (simp add: sample_doc_def)
  have h2: "getMdFiles sample_env (path sample_doc) =
              Inr [''/docs/file1.md'', ''/docs/file2.md'', ''/docs/sub/skip.md'']"
    using sample_listing by (simp add: getMdFiles_def sample_doc_def mdExt_def suffix_to_prefix)
  have rs: "ignoreFiles sample_env = [''/docs/sub/skip.md'']"
       "\<And>f. path_resolve sample_env [f] = f"
       "fs_readFileSync sample_env ''/docs/file1.md'' =
          Inr (js ''---'' @ [0x000A] @ js ''applicable: Exchange Online, Exchange Server''
                   @ [0x000A] @ js ''title: Get-Foo'')"
       "fs_readFileSync sample_env ''/docs/file2.md'' = Inr (js ''applicable: On-Premises'' @ [0x000A])"
    by (simp_all add: sample_env_def)
  have m1: "firstMatch (js ''---'' @ [0x000A] @ js ''applicable: Exchange Online, Exchange Server''
                   @ [0x000A] @ js ''title: Get-Foo'') = Some (js ''Exchange Online, Exchange Server'')"
    by (simp add: firstMatch_def marker_def lineTerminator_def js_def suffix_to_prefix)
  have m2: "firstMatch (js ''applicable: On-Premises'' @ [0x000A]) = Some (js ''On-Premises'')"
    by (simp add: firstMatch_def marker_def lineTerminator_def js_def suffix_to_prefix)
  have t1: "sublist (js ''Exchange Online'') (js ''Exchange Online, Exchange Server'')"
    by (simp add: js_def sublist_code)
  have t2: "\<not> sublist (js ''Exchange Online'') (js ''On-Premises'')"
    by (simp add: js_def sublist_code)
  have h3: "addMdFilesInQueue sample_env sample_doc =
              ([''/docs/file1.md'', ''/docs/file2.md''], Inr [task1])"
    using h2
    by (simp add: addMdFilesInQueue_def isFileIgnore_def isContainTag_def rs m1[simplified]
        m2[simplified] t1 t2 task1_def
        sample_doc_def)
  from tag_filter_keeps_declared_files[OF h1 h2 h3] h1 h3 show ?thesis by blast
qed

text \<open>
  A line separator ends the declaration as a line feed does: the tag that stands
  behind it is not found.
\<close>

lemma line_separator_ends_declaration:
  "firstMatch (js ''applicable: A'' @ [0x2028] @ js ''B'') = Some (js ''A'')
   \<and> \<not> someTagIn [js ''B''] (js ''A'')"
  by (simp add: firstMatch_def marker_def lineTerminator_def js_def suffix_to_prefix sublist_code)

text \<open>
  Claim C2 as it stands, at a file of two marker lines. The second line is an
  applicability marker line and the requested tag "Exchange Online" is a substring of
  the declaration text following its marker. The code reads \<^verbatim>\<open>groups[0]\<close>, the
  declaration of the first line, does not find the tag there and drops the file:
  nothing is pushed.
\<close>

theorem second_marker_line_is_not_read:
  "metaTags sample_doc = [js ''Exchange Online'']
   \<and> fs_readFileSync two_lines_env ''/docs/file1.md'' = Inr two_marker_lines
   \<and> marker_line_declaration two_marker_lines (js ''Exchange Online'')
   \<and> sublist (js ''Exchange Online'') (js ''Exchange Online'')
   \<and> snd (isContainTag two_lines_env sample_doc ''/docs/file1.md'') = Inr False
   \<and> snd (addMdFilesInQueue two_lines_env sample_doc) = Inr []"
proof -
  have h1: "metaTags sample_doc = [js ''Exchange Online'']" by (simp add: sample_doc_def)
  have rd: "\<And>p. fs_readFileSync two_lines_env p = Inr two_marker_lines"
       "ignoreFiles two_lines_env = [''/docs/sub/skip.md'']"
       "\<And>f. path_resolve two_lines_env [f] = f"
    by (simp_all add: two_lines_env_def sample_env_def)
  have decl: "marker_line_declaration two_marker_lines (js ''Exchange Online'')"
    unfolding marker_line_declaration_def
    by (intro exI[of _ "js ''applicable: On-Premises'' @ [0x000A]"] exI[of _ "[]"])
       (simp add: two_marker_lines_def marker_def lineBreak_def js_def)
  have m: "firstMatch two_marker_lines = Some (js ''On-Premises'')"
    by (simp add: two_marker_lines_def firstMatch_def marker_def lineTerminator_def js_def
        suffix_to_prefix)
  have t: "\<not> sublist (js ''Exchange Online'') (js ''On-Premises'')"
    by (simp add: js_def sublist_code)
  have c: "isContainTag two_lines_env sample_doc f = ([f], Inr False)" for f
    by (simp add: isContainTag_def rd m t sample_doc_def)
  have l: "getMdFiles two_lines_env (path sample_doc) =
              Inr [''/docs/file1.md'', ''/docs/file2.md'', ''/docs/sub/skip.md'']"
    by (simp add: getMdFiles_def sample_doc_def mdExt_def suffix_to_prefix two_lines_env_def
        sample_env_def)
  have q: "snd (addMdFilesInQueue two_lines_env sample_doc) = Inr []"
    by (simp add: addMdFilesInQueue_def l isFileIgnore_def rd c)
  from h1 rd(1) decl c q show ?thesis by simp
qed

section \<open>The worker, step by step\<close>

lemmas worker_defs =
  processQueue_def processFile_def copyMdInTempFolder_def getLogFileContent_def
  emit_def Let_def

lemma installStep_frame:
  assumes "installStep e s n = (s1, r)"
  shows "store s1 = store s" and "ids s1 = ids s" and "unhandled s1 = unhandled s"
    and "trace s1 = trace s @ (if n \<in> set (installedDependencies s) then [] else [InstallDependencies n])"
    and "installedDependencies s1 =
           (if n \<in> set (installedDependencies s) then installedDependencies s
            else installedDependencies s @ [n])"
  using assms by (auto simp: installStep_def emit_def Let_def split: if_splits)

lemma getTempFolderName_frame:
  assumes "getTempFolderName e s d = (s2, r)"
  shows "trace s2 = trace s" and "installedDependencies s2 = installedDependencies s"
    and "unhandled s2 = unhandled s"
    and "logs (store s2) = logs (store s)" and "errors (store s2) = errors (store s)"
    and "r = map_of (tempFolders (store s2)) (name d)"
  using assms
  by (auto simp: getTempFolderName_def getAllTempFolders_def addTempFolder_def Let_def
      split: if_splits)

lemma ensureDirCalls_append: "ensureDirCalls (xs @ ys) = ensureDirCalls xs @ ensureDirCalls ys"
  by (induction xs rule: ensureDirCalls.induct) simp_all

lemma processFile_frame:
  assumes "processFile e s t p = (s', oc)"
  shows "installedDependencies s' = installedDependencies s"
    and "tempFolders (store s') = tempFolders (store s)"
    and "unhandled s' = unhandled s"
    and "logs (store s') = logs (store s)"
    and "oc \<noteq> No_callback err"
    and "\<exists>es. trace s' = trace s @ es \<and> ensureDirCalls es = [p]
              \<and> count_list es (InstallDependencies m) = 0"
  using assms
  by (auto simp: processFile_def copyMdInTempFolder_def getLogFileContent_def emit_def Let_def
      addError_def split: option.splits sum.splits)

lemma processQueue_cases:
  obtains (rejected) s1 err where
      "installStep e s (name (doc t)) = (s1, Some err)" "processQueue e s t = (s1, No_callback err)"
  | (no_folder) s1 s2 where
      "installStep e s (name (doc t)) = (s1, None)" "getTempFolderName e s1 (doc t) = (s2, None)"
      "processQueue e s t = (s2, No_callback (Error ''TypeError''))"
  | (process) s1 s2 folders where
      "installStep e s (name (doc t)) = (s1, None)"
      "getTempFolderName e s1 (doc t) = (s2, Some folders)"
      "processQueue e s t = processFile e s2 t (first folders)"
proof (cases "installStep e s (name (doc t))")
  case (Pair s1 r)
  show ?thesis
  proof (cases r)
    case (Some err)
    with Pair rejected show ?thesis by (simp add: processQueue_def)
  next
    case None
    show ?thesis
    proof (cases "getTempFolderName e s1 (doc t)")
      case (Pair s2 fo)
      with None \<open>installStep e s (name (doc t)) = (s1, r)\<close> no_folder process show ?thesis
        by (cases fo) (simp_all add: processQueue_def)
    qed
  qed
qed

lemma getTempFolderName_never_None: "getTempFolderName e s d \<noteq> (s2, None)"
  by (auto simp: getTempFolderName_def getAllTempFolders_def addTempFolder_def Let_def
      update_conv')

lemma processQueue_installed:
  assumes "processQueue e s t = (s', oc)"
  shows "installedDependencies s' =
           (if name (doc t) \<in> set (installedDependencies s) then installedDependencies s
            else installedDependencies s @ [name (doc t)])"
proof (cases e s t rule: processQueue_cases)
  case (rejected s1 err)
  with assms installStep_frame(5)[OF rejected(1)] show ?thesis by simp
next
  case (no_folder s1 s2)
  with getTempFolderName_never_None show ?thesis by blast
next
  case (process s1 s2 folders)
  with assms have "processFile e s2 t (first folders) = (s', oc)" by simp
  from processFile_frame(1)[OF this] getTempFolderName_frame(2)[OF process(2)]
    installStep_frame(5)[OF process(1)]
  show ?thesis by simp
qed

lemma processQueue_install_calls:
  assumes "processQueue e s t = (s', oc)"
  shows "count_list (trace s') (InstallDependencies m) =
           count_list (trace s) (InstallDependencies m)
           + (if m = name (doc t) \<and> m \<notin> set (installedDependencies s) then 1 else 0)"
proof (cases e s t rule: processQueue_cases)
  case (rejected s1 err)
  with assms installStep_frame(4)[OF rejected(1)] show ?thesis by auto
next
  case (no_folder s1 s2)
  with getTempFolderName_never_None show ?thesis by blast
next
  case (process s1 s2 folders)
  with assms have pf: "processFile e s2 t (first folders) = (s', oc)" by simp
  from processFile_frame(6)[OF pf, of m] obtain es where
    "trace s' = trace s2 @ es" "count_list es (InstallDependencies m) = 0" by blast
  with getTempFolderName_frame(1)[OF process(2)] installStep_frame(4)[OF process(1)]
  show ?thesis by auto
qed

lemma handlers_frame:
  "trace (queueFinishHandler s r) = trace s"
  "installedDependencies (queueFinishHandler s r) = installedDependencies s"
  "tempFolders (store (queueFinishHandler s r)) = tempFolders (store s)"
  "trace (queueFailedHandler s err) = trace s"
  "installedDependencies (queueFailedHandler s err) = installedDependencies s"
  "store (queueFailedHandler s err) = store s"
  by (auto simp: queueFinishHandler_def queueFailedHandler_def addLog_def split: result.splits)

lemma update_absent: "map_of al k = None \<Longrightarrow> AList.update k v al = al @ [(k, v)]"
  by (induction al) (auto split: if_splits)

lemma getTempFolderName_fresh:
  assumes "map_of (tempFolders (store s)) (name d) = None"
  shows "getTempFolderName e s d =
           (s\<lparr>ids := ids s + 1,
              store := (store s)\<lparr>tempFolders := tempFolders (store s)
                                   @ [(name d, [path d @ sep @ shortId e (ids s)])]\<rparr>\<rparr>,
            Some [path d @ sep @ shortId e (ids s)])"
  using assms
  by (simp add: getTempFolderName_def getAllTempFolders_def addTempFolder_def Let_def
      update_absent map_add_def)

lemma getTempFolderName_known:
  assumes "map_of (tempFolders (store s)) (name d) = Some folders"
  shows "getTempFolderName e s d = (s, Some folders)"
  using assms by (simp add: getTempFolderName_def getAllTempFolders_def)

lemma getTempFolderName_folders:
  assumes "getTempFolderName e s d = (s2, r)"
  shows "tempFolders (store s2) =
           (if map_of (tempFolders (store s)) (name d) = None
            then tempFolders (store s) @ [(name d, [path d @ sep @ shortId e (ids s)])]
            else tempFolders (store s))"
proof (cases "map_of (tempFolders (store s)) (name d)")
  case None
  from getTempFolderName_fresh[OF None, of e] assms
  have "s2 = s\<lparr>ids := ids s + 1,
              store := (store s)\<lparr>tempFolders := tempFolders (store s)
                                   @ [(name d, [path d @ sep @ shortId e (ids s)])]\<rparr>\<rparr>"
    by simp
  with None show ?thesis by simp
next
  case (Some fo)
  from getTempFolderName_known[OF Some, of e] assms have "s2 = s" by simp
  with Some show ?thesis by simp
qed

lemma processQueue_folders:
  assumes "processQueue e s t = (s1, oc)"
  shows "tempFolders (store s1) =
           (if map_of (tempFolders (store s)) (name (doc t)) = None \<and> (\<forall>err. oc \<noteq> No_callback err)
            then tempFolders (store s) @ [(name (doc t), [path (doc t) @ sep @ shortId e (ids s)])]
            else tempFolders (store s))"
proof (cases e s t rule: processQueue_cases)
  case (rejected s0 err)
  with assms have "s1 = s0" "oc = No_callback err" by simp_all
  with installStep_frame(1)[OF rejected(1)] show ?thesis by simp
next
  case (no_folder s0 s2)
  with getTempFolderName_never_None show ?thesis by blast
next
  case (process s0 s2 folders)
  with assms have pf: "processFile e s2 t (first folders) = (s1, oc)" by simp
  have a: "tempFolders (store s1) = tempFolders (store s2)" by (rule processFile_frame(2)[OF pf])
  have b: "\<forall>err. oc \<noteq> No_callback err" using processFile_frame(5)[OF pf] by blast
  have c: "store s0 = store s" "ids s0 = ids s" using installStep_frame(1,2)[OF process(1)] by simp_all
  show ?thesis
    unfolding a using b getTempFolderName_folders[OF process(2)] by (simp only: c) simp
qed

lemma processQueue_logs:
  assumes "processQueue e s t = (s', oc)"
  shows "logs (store s') = logs (store s)"
    and "oc = Cb_result (LogResult content d) \<Longrightarrow> d = doc t"
proof -
  have "logs (store s') = logs (store s) \<and> (oc = Cb_result (LogResult content d) \<longrightarrow> d = doc t)"
  proof (cases e s t rule: processQueue_cases)
    case (rejected s1 err)
    with assms installStep_frame(1)[OF rejected(1)] show ?thesis by auto
  next
    case (no_folder s1 s2)
    with getTempFolderName_never_None show ?thesis by blast
  next
    case (process s1 s2 folders)
    with assms have pf: "processFile e s2 t (first folders) = (s', oc)" by simp
    have "oc = Cb_result (LogResult content d) \<longrightarrow> d = doc t"
      using pf
      by (auto simp: processFile_def copyMdInTempFolder_def getLogFileContent_def emit_def Let_def
          split: option.splits sum.splits)
    with processFile_frame(4)[OF pf] getTempFolderName_frame(4)[OF process(2)]
      installStep_frame(1)[OF process(1)]
    show ?thesis by simp
  qed
  then show "logs (store s') = logs (store s)"
    and "oc = Cb_result (LogResult content d) \<Longrightarrow> d = doc t" by simp_all
qed

lemma ready_step:
  assumes "name (doc t) \<in> set (installedDependencies s)"
      and "map_of (tempFolders (store s)) (name (doc t)) = Some folders"
  shows "processQueue e s t = processFile e s t (first folders)"
  using assms by (simp add: processQueue_def installStep_def getTempFolderName_known)

section \<open>Runs of the queue\<close>




lemma ready_run:
  assumes "n \<in> set (installedDependencies s)"
      and "map_of (tempFolders (store s)) n = Some folders"
      and "\<forall>t\<in>set ts. name (doc t) = n"
  shows "\<exists>sf. runQueue e s ts = Drained sf
            \<and> tempFolders (store sf) = tempFolders (store s)
            \<and> installedDependencies sf = installedDependencies s
            \<and> ensureDirCalls (trace sf) = ensureDirCalls (trace s) @ replicate (length ts) (first folders)"
  using assms
proof (induction ts arbitrary: s)
  case Nil
  then show ?case by simp
next
  case (Cons t ts)
  from Cons.prems have n: "name (doc t) = n" by simp
  obtain s1 oc where pf: "processFile e s t (first folders) = (s1, oc)"
    by (cases "processFile e s t (first folders)")
  with Cons.prems n have pq: "processQueue e s t = (s1, oc)"
    using ready_step[of t s folders e] by simp
  note fr = processFile_frame[OF pf]
  from fr(6) obtain es where es: "trace s1 = trace s @ es" "ensureDirCalls es = [first folders]"
    by blast
  have calls: "ensureDirCalls (trace s1) = ensureDirCalls (trace s) @ [first folders]"
    by (simp add: es ensureDirCalls_append)
  show ?case
  proof (cases oc)
    case (Cb_error err)
    let ?s = "queueFailedHandler s1 err"
    have "\<exists>sf. runQueue e ?s ts = Drained sf
            \<and> tempFolders (store sf) = tempFolders (store ?s)
            \<and> installedDependencies sf = installedDependencies ?s
            \<and> ensureDirCalls (trace sf) = ensureDirCalls (trace ?s) @ replicate (length ts) (first folders)"
      using Cons.prems fr(1,2) by (intro Cons.IH) (simp_all add: handlers_frame)
    with pq Cb_error fr(1,2) calls show ?thesis
      by (auto simp: handlers_frame replicate_app_Cons_same)
  next
    case (Cb_result r)
    let ?s = "queueFinishHandler s1 r"
    have "\<exists>sf. runQueue e ?s ts = Drained sf
            \<and> tempFolders (store sf) = tempFolders (store ?s)
            \<and> installedDependencies sf = installedDependencies ?s
            \<and> ensureDirCalls (trace sf) = ensureDirCalls (trace ?s) @ replicate (length ts) (first folders)"
      using Cons.prems fr(1,2) by (intro Cons.IH) (simp_all add: handlers_frame)
    with pq Cb_result fr(1,2) calls show ?thesis
      by (auto simp: handlers_frame replicate_app_Cons_same)
  next
    case (No_callback err)
    with fr(5)[of err] show ?thesis by simp
  qed
qed

lemma runQueue_single_folder:
  assumes "\<forall>ps\<in>snd ` set (tempFolders (store s)). length ps = 1"
  shows "\<forall>ps\<in>snd ` set (tempFolders (store (finalWorld (runQueue e s ts)))). length ps = 1"
  using assms
proof (induction ts arbitrary: s)
  case Nil
  then show ?case by simp
next
  case (Cons t ts)
  obtain s1 oc where pq: "processQueue e s t = (s1, oc)" by (cases "processQueue e s t")
  have inv1: "\<forall>ps\<in>snd ` set (tempFolders (store s1)). length ps = 1"
    unfolding processQueue_folders[OF pq] using Cons.prems by simp
  show ?case
  proof (cases oc)
    case (Cb_error err)
    have "\<forall>ps\<in>snd ` set (tempFolders (store (queueFailedHandler s1 err))). length ps = 1"
      using inv1 by (simp add: handlers_frame)
    from Cons.IH[OF this] pq Cb_error show ?thesis by simp
  next
    case (Cb_result r)
    have "\<forall>ps\<in>snd ` set (tempFolders (store (queueFinishHandler s1 r))). length ps = 1"
      using inv1 by (simp add: handlers_frame)
    from Cons.IH[OF this] pq Cb_result show ?thesis by simp
  next
    case (No_callback err)
    with pq inv1 show ?thesis by simp
  qed
qed

lemma first_of_singletons:
  "\<forall>ps\<in>set pss. length ps = 1 \<Longrightarrow> map first pss = concat pss"
proof (induction pss)
  case Nil
  then show ?case by simp
next
  case (Cons ps pss)
  then obtain p where "ps = [p]" by (cases ps) auto
  with Cons show ?case by (simp add: first_def)
qed

lemma fired_prefix: "prefix (map fst (fired e s ts)) ts"
proof (induction ts arbitrary: s)
  case Nil
  then show ?case by simp
next
  case (Cons t ts)
  show ?case
    by (cases "processQueue e s t") (auto simp: Cons.IH split: outcome.splits)
qed

lemma loggedTasks_subseq: "subseq (map fst (loggedTasks xs)) (map fst xs)"
  by (induction xs rule: loggedTasks.induct) auto

lemma runQueue_logs:
  "logs (store (finalWorld (runQueue e s ts))) =
     logs (store s) @ map (\<lambda>(t, content). (content, name (doc t))) (loggedTasks (fired e s ts))"
proof (induction ts arbitrary: s)
  case Nil
  then show ?case by simp
next
  case (Cons t ts)
  obtain s1 oc where pq: "processQueue e s t = (s1, oc)" by (cases "processQueue e s t")
  note lg = processQueue_logs[OF pq]
  show ?case
  proof (cases oc)
    case (Cb_error err)
    with pq lg(1) Cons.IH[of "queueFailedHandler s1 err"] show ?thesis
      by (simp add: handlers_frame)
  next
    case (Cb_result r)
    show ?thesis
    proof (cases r)
      case EmptyString
      with Cb_result pq lg(1) Cons.IH[of "queueFinishHandler s1 r"] show ?thesis
        by (simp add: queueFinishHandler_def)
    next
      case (LogResult content d)
      with Cb_result lg(2) have d: "d = doc t" by simp
      with LogResult Cb_result pq lg(1) Cons.IH[of "queueFinishHandler s1 r"] show ?thesis
        by (simp add: queueFinishHandler_def addLog_def)
    qed
  next
    case (No_callback err)
    with pq lg(1) show ?thesis by simp
  qed
qed

lemma removeCalls_append: "removeCalls (xs @ ys) = removeCalls xs @ removeCalls ys"
  by (induction xs rule: removeCalls.induct) simp_all

lemma removalTrace_simps:
  "removalTrace [] = []" "removalTrace (p # ps) = PathExists p # Remove p # removalTrace ps"
  by (simp_all add: removalTrace_def)

lemma removeCalls_removalTrace: "removeCalls (removalTrace ps) = ps"
  by (induction ps) (simp_all add: removalTrace_simps)

lemma removeAllPaths_resolving:
  assumes "\<forall>i<length ps.
             fs_remove e (trace s @ removalTrace (take i ps) @ [PathExists (ps ! i)]) (ps ! i) = None"
  shows "removeAllPaths e s ps = (s\<lparr>trace := trace s @ removalTrace ps @ [ParseAll]\<rparr>, None)"
  using assms
proof (induction ps arbitrary: s)
  case Nil
  then show ?case by (simp add: emit_def removalTrace_simps)
next
  case (Cons p ps)
  let ?s2 = "s\<lparr>trace := trace s @ [PathExists p, Remove p]\<rparr>"
  from Cons.prems[rule_format, of 0]
  have r0: "fs_remove e (trace s @ [PathExists p]) p = None"
    by (simp add: removalTrace_simps)
  have "\<forall>i<length ps.
          fs_remove e (trace ?s2 @ removalTrace (take i ps) @ [PathExists (ps ! i)]) (ps ! i) = None"
  proof (intro allI impI)
    fix i assume "i < length ps"
    with Cons.prems[rule_format, of "Suc i"]
    show "fs_remove e (trace ?s2 @ removalTrace (take i ps) @ [PathExists (ps ! i)]) (ps ! i) = None"
      by (simp add: removalTrace_simps)
  qed
  from Cons.IH[OF this] r0 show ?case
    by (simp add: emit_def Let_def removalTrace_simps)
qed

lemma removeAllPaths_rejecting:
  assumes "j < length ps"
      and "\<forall>i<j. fs_remove e (trace s @ removalTrace (take i ps) @ [PathExists (ps ! i)]) (ps ! i) = None"
      and "fs_remove e (trace s @ removalTrace (take j ps) @ [PathExists (ps ! j)]) (ps ! j) = Some fsError"
  shows "removeAllPaths e s ps =
           (s\<lparr>trace := trace s @ removalTrace (take (Suc j) ps)\<rparr>, Some (new_Error fsError))"
  using assms
proof (induction ps arbitrary: s j)
  case Nil
  then show ?case by simp
next
  case (Cons p ps)
  let ?s2 = "s\<lparr>trace := trace s @ [PathExists p, Remove p]\<rparr>"
  show ?case
  proof (cases j)
    case 0
    with Cons.prems(3) have "fs_remove e (trace s @ [PathExists p]) p = Some fsError"
      by (simp add: removalTrace_simps)
    with 0 show ?thesis by (simp add: emit_def Let_def removalTrace_simps)
  next
    case (Suc j')
    from Cons.prems(2)[rule_format, of 0] Suc
    have r0: "fs_remove e (trace s @ [PathExists p]) p = None"
      by (simp add: removalTrace_simps)
    have a: "j' < length ps" using Cons.prems(1) Suc by simp
    have b: "\<forall>i<j'. fs_remove e (trace ?s2 @ removalTrace (take i ps) @ [PathExists (ps ! i)]) (ps ! i) = None"
    proof (intro allI impI)
      fix i assume "i < j'"
      with Cons.prems(2)[rule_format, of "Suc i"] Suc
      show "fs_remove e (trace ?s2 @ removalTrace (take i ps) @ [PathExists (ps ! i)]) (ps ! i) = None"
        by (simp add: removalTrace_simps)
    qed
    have c: "fs_remove e (trace ?s2 @ removalTrace (take j' ps) @ [PathExists (ps ! j')]) (ps ! j') = Some fsError"
      using Cons.prems(3) Suc by (simp add: removalTrace_simps)
    from Cons.IH[OF a b c] r0 Suc show ?thesis
      by (simp add: emit_def Let_def removalTrace_simps)
  qed
qed

lemma first_rejection:
  fixes P :: "nat \<Rightarrow> bool"
  assumes "\<exists>i<n. P i"
  shows "\<exists>j<n. P j \<and> (\<forall>i<j. \<not> P i)"
proof -
  from assms obtain i where i: "i < n" "P i" by blast
  define j where "j = (LEAST k. P k)"
  have pj: "P j" unfolding j_def using i(2) by (rule LeastI)
  have le: "j \<le> i" unfolding j_def using i(2) by (rule Least_le)
  have mn: "\<not> P k" if "k < j" for k
    using that unfolding j_def by (rule not_less_Least)
  from le i(1) have "j < n" by simp
  with pj mn show ?thesis by blast
qed

section \<open>The sample run\<close>

lemmas sample_defs =
  processQueue_def processFile_def copyMdInTempFolder_def getLogFileContent_def
  installStep_def getTempFolderName_def getAllTempFolders_def addTempFolder_def
  addLog_def addError_def queueFinishHandler_def queueFailedHandler_def
  distFilePath_def logFilePath_def first_def emit_def Let_def
  constructed_def task1_def task2_def sample_doc_def sample_folder_def sep_def

lemma sample_prepare:
  assumes "cds_installDependencies E [] ''Get-Foo'' = None" and "shortId E 0 = ''x''"
  shows "installStep E constructed (name (doc task1)) = (after_install, None)"
    and "getTempFolderName E after_install (doc task1) = (with_folder, Some [sample_folder])"
  using assms
  by (simp_all add: installStep_def getTempFolderName_def getAllTempFolders_def addTempFolder_def
      emit_def Let_def constructed_def after_install_def with_folder_def sample_folder_def
      task1_def sample_doc_def)

lemma sample_run_calls:
  "ensureDirCalls (trace (finalWorld (runQueue sample_env constructed [task1, task2])))
     = [sample_folder, sample_folder]"
  by (simp add: sample_defs sample_env_def)

section \<open>One task\<close>

text \<open>
  Claim C7. Take a task whose install step was passed and whose temp folder is resolved.
  When \<^verbatim>\<open>fs.ensureDir\<close> rejects, or resolves and \<^verbatim>\<open>fs.copy\<close> rejects, \<^verbatim>\<open>processQueue\<close>
  calls back with the error \<^verbatim>\<open>CANT_CREATE_TEMP_FOLDER\<close> in the first case and
  \<^verbatim>\<open>CANT_COPY_MD_FILE\<close> in the second. The trace grows by the directory call, and the
  copy call if it was made, and by nothing else: the refresh tool is not run and no log
  file is touched or read. The Log Store's logs and errors are as before the task, the
  failed observer leaves the store alone, and the queue goes on with the next task.
\<close>

theorem copy_failure_fails_task:
  fixes e s t s2 folders
  defines "folder \<equiv> first folders"
  defines "dist \<equiv> distFilePath e (file_path t) folder"
  defines "noDir \<equiv> fs_ensureDir e (trace s2) folder \<noteq> None"
  defines "s3 \<equiv> s2\<lparr>ids := ids s2 + 1,
                     trace := trace s2 @ (if noDir then [EnsureDir folder]
                                          else [EnsureDir folder, Copy (file_path t) dist])\<rparr>"
  defines "err \<equiv> Error (if noDir then CANT_CREATE_TEMP_FOLDER e else CANT_COPY_MD_FILE e)"
  assumes inst: "installStep e s (name (doc t)) = (s1, None)"
      and tf: "getTempFolderName e s1 (doc t) = (s2, Some folders)"
      and fail: "noDir \<or> fs_copy e (trace s2 @ [EnsureDir folder]) (file_path t) dist \<noteq> None"
  shows "processQueue e s t = (s3, Cb_error err)
       \<and> logs (store s3) = logs (store s) \<and> errors (store s3) = errors (store s)
       \<and> runQueue e s (t # ts) = runQueue e (queueFailedHandler s3 err) ts
       \<and> store (queueFailedHandler s3 err) = store s3"
proof -
  have pq: "processQueue e s t = (s3, Cb_error err)"
    using fail unfolding s3_def err_def noDir_def dist_def folder_def
    by (auto simp: worker_defs inst tf split: option.splits)
  have "logs (store s3) = logs (store s)" "errors (store s3) = errors (store s)"
    using getTempFolderName_frame(4,5)[OF tf] installStep_frame(1)[OF inst]
    by (simp_all add: s3_def)
  with pq show ?thesis by (simp add: queueFailedHandler_def)
qed

text \<open>The sample task when every copy is refused.\<close>

theorem copy_failure_witness:
  "installStep copy_fails_env constructed (name (doc task1)) = (after_install, None)
   \<and> getTempFolderName copy_fails_env after_install (doc task1) = (with_folder, Some [sample_folder])
   \<and> fs_copy copy_fails_env (trace with_folder @ [EnsureDir sample_folder]) (file_path task1)
        (distFilePath copy_fails_env (file_path task1) sample_folder) \<noteq> None
   \<and> processQueue copy_fails_env constructed task1 =
        (with_folder\<lparr>ids := 2,
            trace := [InstallDependencies ''Get-Foo'', EnsureDir sample_folder,
                      Copy ''/docs/file1.md'' (sample_folder @ sep @ ''file1.md'')]\<rparr>,
         Cb_error (Error ''CANT_COPY_MD_FILE''))"
proof -
  have env: "cds_installDependencies copy_fails_env [] ''Get-Foo'' = None"
      "shortId copy_fails_env 0 = ''x''"
      "\<And>tr p. fs_ensureDir copy_fails_env tr p = None"
      "\<And>tr a b. fs_copy copy_fails_env tr a b = Some (Error ''EACCES'')"
      "CANT_COPY_MD_FILE copy_fails_env = ''CANT_COPY_MD_FILE''"
      "path_basename copy_fails_env ''/docs/file1.md'' = ''file1.md''"
    by (simp_all add: copy_fails_env_def sample_env_def)
  note h = sample_prepare[OF env(1,2)]
  have h3: "fs_ensureDir copy_fails_env (trace with_folder) (first [sample_folder]) \<noteq> None
         \<or> fs_copy copy_fails_env (trace with_folder @ [EnsureDir (first [sample_folder])]) (file_path task1)
              (distFilePath copy_fails_env (file_path task1) (first [sample_folder])) \<noteq> None"
    by (simp add: env)
  show ?thesis
    using copy_failure_fails_task[OF h h3, of "[]"] h
    by (simp add: env first_def distFilePath_def task1_def with_folder_def after_install_def)
qed

text \<open>
  Claim C1. Take a task that reaches the refresh tool (install step passed, temp folder
  resolved, directory and copy fine). When the tool rejects with \<open>failure\<close>,
  \<^verbatim>\<open>processQueue\<close> records \<open>failure\<close> in the error channel under the group's name and
  calls back with no error and the empty string; the finish observer changes nothing, so
  the logs are as before the task. The queue goes on with the tasks behind it from that
  state; when these belong to the same group the queue drains; and when the next task's
  worker reports a non-empty log, that log is appended and the queue has drained.
\<close>

theorem tool_failure_is_isolated:
  fixes e s t s2 folders failure
  defines "folder \<equiv> first folders"
  defines "dist \<equiv> distFilePath e (file_path t) folder"
  defines "logFile \<equiv> logFilePath e s2 folder"
  defines "s3 \<equiv> s2\<lparr>ids := ids s2 + 1,
                     trace := trace s2 @ [EnsureDir folder, Copy (file_path t) dist,
                                          UpdateMarkdown dist logFile],
                     store := addError failure (name (doc t)) (store s2)\<rparr>"
  assumes inst: "installStep e s (name (doc t)) = (s1, None)"
      and tf: "getTempFolderName e s1 (doc t) = (s2, Some folders)"
      and dir_ok: "fs_ensureDir e (trace s2) folder = None"
      and copy_ok: "fs_copy e (trace s2 @ [EnsureDir folder]) (file_path t) dist = None"
      and tool: "ps_updateMarkdown e (trace s2 @ [EnsureDir folder, Copy (file_path t) dist])
                   dist logFile = Inl failure"
  shows "processQueue e s t = (s3, Cb_result EmptyString)
       \<and> errors (store s3) = errors (store s) @ [(failure, name (doc t))]
       \<and> queueFinishHandler s3 EmptyString = s3
       \<and> logs (store s3) = logs (store s)
       \<and> runQueue e s (t # ts) = runQueue e s3 ts
       \<and> ((\<forall>b\<in>set ts. name (doc b) = name (doc t)) \<longrightarrow> (\<exists>sf. runQueue e s (t # ts) = Drained sf))
       \<and> (\<forall>b sb content.
             processQueue e s3 b = (sb, Cb_result (LogResult content (doc b))) \<and> content \<noteq> []
             \<longrightarrow> runQueue e s [t, b] = Drained (sb\<lparr>store := addLog content (name (doc b)) (store sb)\<rparr>))"
proof -
  have pq: "processQueue e s t = (s3, Cb_result EmptyString)"
    using dir_ok copy_ok tool unfolding s3_def dist_def logFile_def folder_def
    by (simp add: worker_defs inst tf logFilePath_def)
  have frame: "logs (store s3) = logs (store s)"
       "errors (store s3) = errors (store s) @ [(failure, name (doc t))]"
    using getTempFolderName_frame(4,5)[OF tf] installStep_frame(1)[OF inst]
    by (simp_all add: s3_def addError_def)
  have fin: "queueFinishHandler s3 EmptyString = s3" by (simp add: queueFinishHandler_def)
  have step: "runQueue e s (t # rest) = runQueue e s3 rest" for rest
    using pq fin by simp
  have inst3: "name (doc t) \<in> set (installedDependencies s3)"
    using installStep_frame(5)[OF inst] getTempFolderName_frame(2)[OF tf]
    by (simp add: s3_def split: if_splits)
  have look3: "map_of (tempFolders (store s3)) (name (doc t)) = Some folders"
    using getTempFolderName_frame(6)[OF tf] by (simp add: s3_def addError_def)
  have drains: "\<exists>sf. runQueue e s (t # ts) = Drained sf" if "\<forall>b\<in>set ts. name (doc b) = name (doc t)"
    using ready_run[OF inst3 look3 that, of e] step by auto
  have next_logged: "runQueue e s [t, b] = Drained (sb\<lparr>store := addLog content (name (doc b)) (store sb)\<rparr>)"
    if "processQueue e s3 b = (sb, Cb_result (LogResult content (doc b))) \<and> content \<noteq> []"
    for b sb content
    using that step[of "[b]"] by (simp add: queueFinishHandler_def)
  from pq frame fin step drains next_logged show ?thesis by blast
qed

text \<open>
  The two sample tasks when the tool fails on the first file: one error and, from the
  second file, one log under the group's name.
\<close>

theorem tool_failure_witness:
  "installStep tool_fails_env constructed (name (doc task1)) = (after_install, None)
   \<and> getTempFolderName tool_fails_env after_install (doc task1) = (with_folder, Some [sample_folder])
   \<and> ps_updateMarkdown tool_fails_env
        (trace with_folder @ [EnsureDir sample_folder, Copy (file_path task1) (sample_folder @ sep @ ''file1.md'')])
        (sample_folder @ sep @ ''file1.md'') (sample_folder @ sep @ ''xx.log'') = Inl (Error ''boom'')
   \<and> snd (processQueue tool_fails_env constructed task1) = Cb_result EmptyString
   \<and> (\<exists>sf. runQueue tool_fails_env constructed [task1, task2] = Drained sf)
   \<and> errors (store (finalWorld (runQueue tool_fails_env constructed [task1, task2])))
        = [(Error ''boom'', ''Get-Foo'')]
   \<and> logs (store (finalWorld (runQueue tool_fails_env constructed [task1, task2])))
        = [(''log of '' @ sample_folder @ sep @ ''file2.md'', ''Get-Foo'')]"
proof -
  have env: "cds_installDependencies tool_fails_env [] ''Get-Foo'' = None"
      "shortId tool_fails_env 0 = ''x''" "shortId tool_fails_env 1 = ''xx''"
      "\<And>tr p. fs_ensureDir tool_fails_env tr p = None"
      "\<And>tr a b. fs_copy tool_fails_env tr a b = None"
      "\<And>tr l. ps_updateMarkdown tool_fails_env tr (sample_folder @ sep @ ''file1.md'') l = Inl (Error ''boom'')"
      "path_basename tool_fails_env ''/docs/file1.md'' = ''file1.md''"
    by (simp_all add: tool_fails_env_def sample_env_def)
  note h = sample_prepare[OF env(1,2)]
  have names: "\<forall>b\<in>set [task2]. name (doc b) = name (doc task1)"
    by (simp add: task1_def task2_def)
  have h3: "fs_ensureDir tool_fails_env (trace with_folder) (first [sample_folder]) = None"
    by (simp add: env)
  have h4: "fs_copy tool_fails_env (trace with_folder @ [EnsureDir (first [sample_folder])]) (file_path task1)
              (distFilePath tool_fails_env (file_path task1) (first [sample_folder])) = None"
    by (simp add: env)
  have h5: "ps_updateMarkdown tool_fails_env
              (trace with_folder @ [EnsureDir (first [sample_folder]),
                 Copy (file_path task1) (distFilePath tool_fails_env (file_path task1) (first [sample_folder]))])
              (distFilePath tool_fails_env (file_path task1) (first [sample_folder]))
              (logFilePath tool_fails_env with_folder (first [sample_folder])) = Inl (Error ''boom'')"
    by (simp add: env first_def distFilePath_def task1_def)
  have run: "errors (store (finalWorld (runQueue tool_fails_env constructed [task1, task2])))
        = [(Error ''boom'', ''Get-Foo'')]"
      "logs (store (finalWorld (runQueue tool_fails_env constructed [task1, task2])))
        = [(''log of '' @ sample_folder @ sep @ ''file2.md'', ''Get-Foo'')]"
    by (simp_all add: sample_defs tool_fails_env_def sample_env_def)
  have tool: "ps_updateMarkdown tool_fails_env
        (trace with_folder @ [EnsureDir sample_folder, Copy (file_path task1) (sample_folder @ sep @ ''file1.md'')])
        (sample_folder @ sep @ ''file1.md'') (sample_folder @ sep @ ''xx.log'') = Inl (Error ''boom'')"
    by (simp add: env)
  note T = tool_failure_is_isolated[OF h h3 h4 h5, of "[task2]"]
  from T[THEN conjunct1]
  have a: "snd (processQueue tool_fails_env constructed task1) = Cb_result EmptyString"
    by simp
  from T[THEN conjunct2, THEN conjunct2, THEN conjunct2, THEN conjunct2, THEN conjunct2,
         THEN conjunct1, THEN mp, OF names]
  have b: "\<exists>sf. runQueue tool_fails_env constructed [task1, task2] = Drained sf" .
  from h tool run a b show ?thesis by (intro conjI)
qed

text \<open>
  Claim C10. Take a task on which the refresh tool resolves and whose log file is read
  back as the empty string. \<^verbatim>\<open>processQueue\<close> calls back with no error and the result
  \<^verbatim>\<open>{ result: '', doc }\<close>; the finish observer appends nothing and leaves the state as
  it does for the empty string of the tool-failure path; logs and errors of the Log
  Store are as before the task.
\<close>

theorem empty_log_appends_nothing:
  fixes e s t s2 folders
  defines "folder \<equiv> first folders"
  defines "dist \<equiv> distFilePath e (file_path t) folder"
  defines "logFile \<equiv> logFilePath e s2 folder"
  defines "s4 \<equiv> s2\<lparr>ids := ids s2 + 1,
                     trace := trace s2 @ [EnsureDir folder, Copy (file_path t) dist,
                                          UpdateMarkdown dist logFile, EnsureFile logFile,
                                          ReadFile logFile]\<rparr>"
  assumes inst: "installStep e s (name (doc t)) = (s1, None)"
      and tf: "getTempFolderName e s1 (doc t) = (s2, Some folders)"
      and dir_ok: "fs_ensureDir e (trace s2) folder = None"
      and copy_ok: "fs_copy e (trace s2 @ [EnsureDir folder]) (file_path t) dist = None"
      and tool_ok: "ps_updateMarkdown e (trace s2 @ [EnsureDir folder, Copy (file_path t) dist])
                   dist logFile = Inr printed"
      and file_ok: "fs_ensureFile e (trace s2 @ [EnsureDir folder, Copy (file_path t) dist,
                                                 UpdateMarkdown dist logFile]) logFile = None"
      and empty: "fs_readFile e (trace s2 @ [EnsureDir folder, Copy (file_path t) dist,
                                             UpdateMarkdown dist logFile, EnsureFile logFile]) logFile = Inr []"
  shows "processQueue e s t = (s4, Cb_result (LogResult [] (doc t)))
       \<and> queueFinishHandler s4 (LogResult [] (doc t)) = s4
       \<and> queueFinishHandler s4 (LogResult [] (doc t)) = queueFinishHandler s4 EmptyString
       \<and> logs (store s4) = logs (store s)
       \<and> errors (store s4) = errors (store s)
       \<and> runQueue e s (t # ts) = runQueue e s4 ts"
proof -
  have pq: "processQueue e s t = (s4, Cb_result (LogResult [] (doc t)))"
    using dir_ok copy_ok tool_ok file_ok empty unfolding s4_def dist_def logFile_def folder_def
    by (simp add: worker_defs inst tf logFilePath_def)
  have "logs (store s4) = logs (store s)" "errors (store s4) = errors (store s)"
    using getTempFolderName_frame(4,5)[OF tf] installStep_frame(1)[OF inst]
    by (simp_all add: s4_def)
  with pq show ?thesis by (simp add: queueFinishHandler_def)
qed

text \<open>The sample task when every log file reads back empty.\<close>

theorem empty_log_witness:
  "installStep empty_log_env constructed (name (doc task1)) = (after_install, None)
   \<and> getTempFolderName empty_log_env after_install (doc task1) = (with_folder, Some [sample_folder])
   \<and> fs_readFile empty_log_env
        (trace with_folder @ [EnsureDir sample_folder, Copy (file_path task1) (sample_folder @ sep @ ''file1.md''),
           UpdateMarkdown (sample_folder @ sep @ ''file1.md'') (sample_folder @ sep @ ''xx.log''),
           EnsureFile (sample_folder @ sep @ ''xx.log'')])
        (sample_folder @ sep @ ''xx.log'') = Inr []
   \<and> snd (processQueue empty_log_env constructed task1) = Cb_result (LogResult [] sample_doc)
   \<and> logs (store (finalWorld (runQueue empty_log_env constructed [task1]))) = []"
proof -
  have env: "cds_installDependencies empty_log_env [] ''Get-Foo'' = None"
      "shortId empty_log_env 0 = ''x''" "shortId empty_log_env 1 = ''xx''"
      "\<And>tr p. fs_ensureDir empty_log_env tr p = None"
      "\<And>tr a b. fs_copy empty_log_env tr a b = None"
      "\<And>tr f l. ps_updateMarkdown empty_log_env tr f l = Inr ''updated''"
      "\<And>tr p. fs_ensureFile empty_log_env tr p = None"
      "\<And>tr p. fs_readFile empty_log_env tr p = Inr []"
      "path_basename empty_log_env ''/docs/file1.md'' = ''file1.md''"
    by (simp_all add: empty_log_env_def sample_env_def)
  note h = sample_prepare[OF env(1,2)]
  have run: "logs (store (finalWorld (runQueue empty_log_env constructed [task1]))) = []"
    by (simp add: sample_defs empty_log_env_def sample_env_def)
  note T = empty_log_appends_nothing[OF h, of "''updated''" "[]", OF env(4) env(5) env(6) env(7) env(8)]
  from T[THEN conjunct1]
  have a: "snd (processQueue empty_log_env constructed task1) = Cb_result (LogResult [] sample_doc)"
    by (simp add: task1_def)
  from h env(8) run a show ?thesis by (intro conjI)
qed

text \<open>
  Claim C9. When the group's name is not yet installed and the installer rejects,
  \<^verbatim>\<open>processQueue\<close> has pushed the name before the call, its promise rejects with the
  installer's error and \<^verbatim>\<open>cb\<close> is never called; the Log Store is untouched; the queue
  stalls with the tasks behind it pending. In every later state that still holds the
  name, the worker on a task of that group makes no install call for it and leaves
  \<open>installedDependencies\<close> as it is.
\<close>

theorem failed_install_is_not_retried:
  fixes e s t err
  defines "n \<equiv> name (doc t)"
  defines "s' \<equiv> s\<lparr>installedDependencies := installedDependencies s @ [name (doc t)],
                     trace := trace s @ [InstallDependencies (name (doc t))]\<rparr>"
  assumes fresh: "name (doc t) \<notin> set (installedDependencies s)"
      and rejects: "cds_installDependencies e (trace s) (name (doc t)) = Some err"
  shows "processQueue e s t = (s', No_callback err)
       \<and> n \<in> set (installedDependencies s')
       \<and> store s' = store s
       \<and> runQueue e s (t # ts) = Stalled (s'\<lparr>unhandled := unhandled s' @ [err]\<rparr>) ts
       \<and> (\<forall>u s2 s3 oc.
             name (doc u) = n \<and> n \<in> set (installedDependencies s2) \<and> processQueue e s2 u = (s3, oc)
             \<longrightarrow> count_list (trace s3) (InstallDependencies n) = count_list (trace s2) (InstallDependencies n)
                 \<and> installedDependencies s3 = installedDependencies s2)"
proof -
  have pq: "processQueue e s t = (s', No_callback err)"
    using fresh rejects by (simp add: processQueue_def installStep_def emit_def Let_def s'_def)
  have later: "count_list (trace s3) (InstallDependencies n) = count_list (trace s2) (InstallDependencies n)
             \<and> installedDependencies s3 = installedDependencies s2"
    if "name (doc u) = n \<and> n \<in> set (installedDependencies s2) \<and> processQueue e s2 u = (s3, oc)"
    for u s2 s3 oc
    using that processQueue_install_calls[of e s2 u s3 oc n] processQueue_installed[of e s2 u s3 oc]
    by simp
  from pq later show ?thesis by (simp add: s'_def n_def)
qed

text \<open>The two sample tasks when the installer is offline.\<close>

theorem failed_install_witness:
  "name (doc task1) \<notin> set (installedDependencies constructed)
   \<and> cds_installDependencies install_fails_env (trace constructed) (name (doc task1)) = Some (Error ''offline'')
   \<and> processQueue install_fails_env constructed task1 = (after_install, No_callback (Error ''offline''))
   \<and> runQueue install_fails_env constructed [task1, task2]
        = Stalled (after_install\<lparr>unhandled := [Error ''offline'']\<rparr>) [task2]"
proof -
  have h1: "name (doc task1) \<notin> set (installedDependencies constructed)"
    by (simp add: constructed_def)
  have h2: "cds_installDependencies install_fails_env (trace constructed) (name (doc task1))
              = Some (Error ''offline'')"
    by (simp add: install_fails_env_def)
  note T = failed_install_is_not_retried[OF h1 h2, of "[task2]"]
  from T[THEN conjunct1]
  have a: "processQueue install_fails_env constructed task1 = (after_install, No_callback (Error ''offline''))"
    by (simp add: after_install_def constructed_def task1_def sample_doc_def)
  from T[THEN conjunct2, THEN conjunct2, THEN conjunct2, THEN conjunct1]
  have b: "runQueue install_fails_env constructed [task1, task2]
        = Stalled (after_install\<lparr>unhandled := [Error ''offline'']\<rparr>) [task2]"
    by (simp add: after_install_def constructed_def task1_def sample_doc_def)
  from h1 h2 a b show ?thesis by (intro conjI)
qed

section \<open>A whole run\<close>



text \<open>
  Claim C5 asks for a single directory-creation call across the \<open>N\<close> files of a group.
  The two sample tasks belong to one group, and \<^verbatim>\<open>fs.ensureDir\<close> is called twice, both
  times for the group's one temp folder.
\<close>

theorem two_files_two_directory_calls:
  "name (doc task1) = name (doc task2)
   \<and> ensureDirCalls (trace (finalWorld (runQueue sample_env constructed [task1, task2])))
       = [sample_folder, sample_folder]
   \<and> length (ensureDirCalls (trace (finalWorld (runQueue sample_env constructed [task1, task2])))) \<noteq> 1"
proof -
  have same: "name (doc task1) = name (doc task2)" by (simp add: task1_def task2_def)
  have two: "length (ensureDirCalls (trace (finalWorld (runQueue sample_env constructed [task1, task2])))) \<noteq> 1"
    unfolding sample_run_calls by simp
  from same sample_run_calls two show ?thesis by (intro conjI)
qed

text \<open>
  Claim C5, amended. Take \<open>N \<ge> 1\<close> tasks of one group that has no temp folder yet.
  When the group's install step passes (the name is installed already, or the installer
  resolves), the queue drains; one path, \<^verbatim>\<open>${doc.path}\\${shortId()}\<close> of the first task, is
  registered under the group's name, once; and \<^verbatim>\<open>fs.ensureDir\<close> is called once per file,
  \<open>N\<close> times in all, each time with that one path. When the installer rejects, the
  queue stalls at the first task, no path is registered and no directory call is made.
\<close>

theorem temp_folder_registered_once_and_reused:
  fixes e s ts n
  defines "p \<equiv> path (doc (hd ts)) @ sep @ shortId e (ids s)"
  assumes ne: "ts \<noteq> []"
      and grp: "\<forall>t\<in>set ts. name (doc t) = n"
      and fresh: "map_of (tempFolders (store s)) n = None"
  shows "if n \<in> set (installedDependencies s) \<or> cds_installDependencies e (trace s) n = None
         then \<exists>sf. runQueue e s ts = Drained sf
                \<and> tempFolders (store sf) = tempFolders (store s) @ [(n, [p])]
                \<and> ensureDirCalls (trace sf) = ensureDirCalls (trace s) @ replicate (length ts) p
         else \<exists>sf. runQueue e s ts = Stalled sf (tl ts)
                \<and> tempFolders (store sf) = tempFolders (store s)
                \<and> ensureDirCalls (trace sf) = ensureDirCalls (trace s)"
proof (cases "n \<in> set (installedDependencies s) \<or> cds_installDependencies e (trace s) n = None")
  case False
  from ne obtain t rest where ts: "ts = t # rest" by (cases ts) auto
  with grp have n: "name (doc t) = n" by simp
  from False obtain err where rej: "n \<notin> set (installedDependencies s)"
      "cds_installDependencies e (trace s) n = Some err" by auto
  have "processQueue e s t =
          (s\<lparr>installedDependencies := installedDependencies s @ [n],
             trace := trace s @ [InstallDependencies n]\<rparr>, No_callback err)"
    using rej n by (simp add: processQueue_def installStep_def emit_def Let_def)
  with False ts show ?thesis by (simp add: ensureDirCalls_append)
next
  case inst: True
  from ne obtain t rest where ts: "ts = t # rest" by (cases ts) auto
  with grp have n: "name (doc t) = n" and rest: "\<forall>u\<in>set rest. name (doc u) = n" by simp_all
  obtain s1 where i1: "installStep e s n = (s1, None)"
    using inst by (cases "n \<in> set (installedDependencies s)") (auto simp: installStep_def Let_def)
  note f1 = installStep_frame[OF i1]
  have in1: "n \<in> set (installedDependencies s1)" using f1(5) by (simp split: if_splits)
  have fresh1: "map_of (tempFolders (store s1)) (name (doc t)) = None"
    using fresh f1(1) n by simp
  define s2 where "s2 = s1\<lparr>ids := ids s1 + 1,
              store := (store s1)\<lparr>tempFolders := tempFolders (store s1)
                                   @ [(name (doc t), [path (doc t) @ sep @ shortId e (ids s1)])]\<rparr>\<rparr>"
  have p: "p = path (doc t) @ sep @ shortId e (ids s1)" by (simp add: p_def ts f1(2))
  have g: "getTempFolderName e s1 (doc t) = (s2, Some [p])"
    using getTempFolderName_fresh[OF fresh1, of e] by (simp add: s2_def p)
  obtain s3 oc where pf: "processFile e s2 t p = (s3, oc)" by (cases "processFile e s2 t p")
  have pq: "processQueue e s t = (s3, oc)"
    using i1 g pf n by (simp add: processQueue_def first_def)
  note fr = processFile_frame[OF pf]
  from fr(6) obtain es where es: "trace s3 = trace s2 @ es" "ensureDirCalls es = [p]" by blast
  have tr2: "ensureDirCalls (trace s2) = ensureDirCalls (trace s)"
    using f1(4) by (simp add: s2_def ensureDirCalls_append split: if_splits)
  have calls: "ensureDirCalls (trace s3) = ensureDirCalls (trace s) @ [p]"
    by (simp add: es ensureDirCalls_append tr2)
  have tf3: "tempFolders (store s3) = tempFolders (store s) @ [(n, [p])]"
    using fr(2) f1(1) by (simp add: s2_def p n)
  have in3: "n \<in> set (installedDependencies s3)" using fr(1) in1 by (simp add: s2_def)
  have look: "map_of (tempFolders (store s3)) n = Some [p]"
    using fresh by (simp add: tf3 map_add_def)
  have "\<exists>sf. runQueue e s ts = Drained sf
            \<and> tempFolders (store sf) = tempFolders (store s) @ [(n, [p])]
            \<and> ensureDirCalls (trace sf) = ensureDirCalls (trace s) @ replicate (length ts) p"
  proof (cases oc)
    case (Cb_error err)
    let ?s = "queueFailedHandler s3 err"
    from ready_run[of n ?s "[p]" rest e] in3 look rest
    obtain sf where "runQueue e ?s rest = Drained sf"
        "tempFolders (store sf) = tempFolders (store ?s)"
        "ensureDirCalls (trace sf) = ensureDirCalls (trace ?s) @ replicate (length rest) (first [p])"
      by (auto simp: handlers_frame)
    with pq Cb_error tf3 calls ts show ?thesis
      by (auto simp: handlers_frame first_def replicate_app_Cons_same)
  next
    case (Cb_result r)
    let ?s = "queueFinishHandler s3 r"
    from ready_run[of n ?s "[p]" rest e] in3 look rest
    obtain sf where "runQueue e ?s rest = Drained sf"
        "tempFolders (store sf) = tempFolders (store ?s)"
        "ensureDirCalls (trace sf) = ensureDirCalls (trace ?s) @ replicate (length rest) (first [p])"
      by (auto simp: handlers_frame)
    with pq Cb_result tf3 calls ts show ?thesis
      by (auto simp: handlers_frame first_def replicate_app_Cons_same)
  next
    case (No_callback err)
    with fr(5)[of err] show ?thesis by simp
  qed
  with inst show ?thesis by simp
qed

text \<open>The two sample tasks: one registered folder, used by both.\<close>

theorem temp_folder_witness:
  "[task1, task2] \<noteq> [] \<and> name (doc task1) = ''Get-Foo'' \<and> name (doc task2) = ''Get-Foo''
   \<and> map_of (tempFolders (store constructed)) ''Get-Foo'' = None
   \<and> cds_installDependencies sample_env (trace constructed) ''Get-Foo'' = None
   \<and> (\<exists>sf. runQueue sample_env constructed [task1, task2] = Drained sf
          \<and> tempFolders (store sf) = [(''Get-Foo'', [sample_folder])]
          \<and> ensureDirCalls (trace sf) = [sample_folder, sample_folder])"
proof -
  have names: "name (doc task1) = ''Get-Foo''" "name (doc task2) = ''Get-Foo''"
    by (simp_all add: task1_def task2_def sample_doc_def)
  have h1: "[task1, task2] \<noteq> []" by simp
  have h2: "\<forall>t\<in>set [task1, task2]. name (doc t) = ''Get-Foo''" using names by simp
  have h3: "map_of (tempFolders (store constructed)) ''Get-Foo'' = None"
    by (simp add: constructed_def)
  have h4: "cds_installDependencies sample_env (trace constructed) ''Get-Foo'' = None"
    by (simp add: sample_env_def)
  have p: "path (doc (hd [task1, task2])) @ sep @ shortId sample_env (ids constructed) = sample_folder"
    by (simp add: task1_def sample_doc_def sample_env_def constructed_def sample_folder_def)
  from temp_folder_registered_once_and_reused[OF h1 h2 h3, of sample_env] h4
  have "\<exists>sf. runQueue sample_env constructed [task1, task2] = Drained sf
          \<and> tempFolders (store sf) = [(''Get-Foo'', [sample_folder])]
          \<and> ensureDirCalls (trace sf) = [sample_folder, sample_folder]"
    unfolding p by (simp add: constructed_def)
  with names h1 h3 h4 show ?thesis by (intro conjI)
qed

text \<open>
  Claim C6. After a run, the log channel holds the logs it held before, followed by the
  logs of the tasks that finished with a non-empty log, in the order in which their
  callbacks fired, each under its group's name. The tasks whose callback fired are a
  prefix of the pushed tasks, so the logged tasks are a subsequence of the pushed tasks
  in push order.
\<close>

theorem logs_are_appended_in_push_order:
  "logs (store (finalWorld (runQueue e s ts))) =
     logs (store s) @ map (\<lambda>(t, content). (content, name (doc t))) (loggedTasks (fired e s ts))
   \<and> subseq (map fst (loggedTasks (fired e s ts))) ts
   \<and> prefix (map fst (fired e s ts)) ts"
proof -
  have "subseq (map fst (loggedTasks (fired e s ts))) (map fst (fired e s ts))"
    by (rule loggedTasks_subseq)
  moreover have "subseq (map fst (fired e s ts)) ts"
    using fired_prefix by (rule prefix_imp_subseq)
  ultimately have "subseq (map fst (loggedTasks (fired e s ts))) ts"
    by (rule subseq_order.trans)
  with runQueue_logs fired_prefix show ?thesis by blast
qed

text \<open>The two sample tasks: the log of the first file, then the log of the second.\<close>

theorem logs_in_push_order_witness:
  "logs (store (finalWorld (runQueue sample_env constructed [task1, task2])))
     = [(''log of '' @ sample_folder @ sep @ ''file1.md'', ''Get-Foo''),
        (''log of '' @ sample_folder @ sep @ ''file2.md'', ''Get-Foo'')]
   \<and> map (file_path \<circ> fst) (loggedTasks (fired sample_env constructed [task1, task2]))
       = [''/docs/file1.md'', ''/docs/file2.md'']"
proof -
  have f: "map (file_path \<circ> fst) (loggedTasks (fired sample_env constructed [task1, task2]))
       = [''/docs/file1.md'', ''/docs/file2.md'']"
    by (simp add: sample_defs sample_env_def)
  have l: "map (\<lambda>(t, content). (content, name (doc t))) (loggedTasks (fired sample_env constructed [task1, task2]))
     = [(''log of '' @ sample_folder @ sep @ ''file1.md'', ''Get-Foo''),
        (''log of '' @ sample_folder @ sep @ ''file2.md'', ''Get-Foo'')]"
    by (simp add: sample_defs sample_env_def)
  from logs_are_appended_in_push_order[of sample_env constructed "[task1, task2]", THEN conjunct1]
  have "logs (store (finalWorld (runQueue sample_env constructed [task1, task2])))
     = [(''log of '' @ sample_folder @ sep @ ''file1.md'', ''Get-Foo''),
        (''log of '' @ sample_folder @ sep @ ''file2.md'', ''Get-Foo'')]"
    unfolding l by (simp add: constructed_def)
  with f show ?thesis by (intro conjI)
qed

text \<open>
  Claim C3. \<open>paths\<close> is the list the handler makes, \<^verbatim>\<open>path[0]\<close> of every group in the
  order of the Log Store; in every state that a run from the constructed service ends
  in, each group holds one path and \<open>paths\<close> is the list of all registered paths.
  \<open>called i\<close> is the trace when the handler has disposed the tool session, saved the
  Log Store, and asked \<^verbatim>\<open>fs.pathExists\<close> and called \<^verbatim>\<open>fs.remove\<close> for the first \<open>i\<close> paths;
  \<open>answer i\<close> is what \<^verbatim>\<open>fs.remove\<close> answers for path \<open>i\<close> at that point.

  The handler ends without an error exactly when no removal rejects; then every path
  of \<open>paths\<close> was removed, these and no other, after dispose and save, and \<^verbatim>\<open>parseAll\<close>
  is the last call. When the removal of path \<open>j\<close> is the first to reject, with
  \<open>fsError\<close>, the handler throws \<^verbatim>\<open>new Error(fsError)\<close>: the trace ends with that removal,
  no later path is removed and \<^verbatim>\<open>parseAll\<close> is not called. The Log Store is unchanged.
\<close>

theorem cleanup_removes_registered_folders:
  fixes e s s' r
  defines "paths \<equiv> map first (map snd (getAllTempFolders (store s)))"
  defines "called \<equiv> \<lambda>i. trace s @ [Dispose, SaveInFs]
                          @ removalTrace (take i (map first (map snd (getAllTempFolders (store s)))))"
  defines "answer \<equiv> \<lambda>i. fs_remove e
                          (trace s @ [Dispose, SaveInFs]
                             @ removalTrace (take i (map first (map snd (getAllTempFolders (store s)))))
                             @ [PathExists (map first (map snd (getAllTempFolders (store s))) ! i)])
                          (map first (map snd (getAllTempFolders (store s))) ! i)"
  assumes handler: "queueEmptyHandler e s = (s', r)"
  shows "(r = None \<longleftrightarrow> (\<forall>i<length paths. answer i = None))
       \<and> (r = None \<longrightarrow> trace s' = called (length paths) @ [ParseAll]
                         \<and> removeCalls (trace s') = removeCalls (trace s) @ paths)
       \<and> (\<forall>j fsError. j < length paths \<and> (\<forall>i<j. answer i = None) \<and> answer j = Some fsError
             \<longrightarrow> r = Some (new_Error fsError)
               \<and> trace s' = called (Suc j)
               \<and> removeCalls (trace s') = removeCalls (trace s) @ take (Suc j) paths)
       \<and> store s' = store s
       \<and> (\<forall>ts. finalWorld (runQueue e constructed ts) = s
             \<longrightarrow> paths = concat (map snd (getAllTempFolders (store s))))"
proof -
  let ?s2 = "s\<lparr>trace := trace s @ [Dispose, SaveInFs]\<rparr>"
  have run: "removeAllPaths e ?s2 paths = (s', r)"
    using handler by (simp add: queueEmptyHandler_def Let_def emit_def paths_def)
  have ans: "answer i = fs_remove e (trace ?s2 @ removalTrace (take i paths) @ [PathExists (paths ! i)]) (paths ! i)"
    for i by (simp add: answer_def paths_def)
  have ok: "s' = ?s2\<lparr>trace := trace ?s2 @ removalTrace paths @ [ParseAll]\<rparr> \<and> r = None"
    if "\<forall>i<length paths. answer i = None"
    using removeAllPaths_resolving[of paths e ?s2] that run unfolding ans by simp
  have bad: "s' = ?s2\<lparr>trace := trace ?s2 @ removalTrace (take (Suc j) paths)\<rparr> \<and> r = Some (new_Error fsError)"
    if "j < length paths" "\<forall>i<j. answer i = None" "answer j = Some fsError" for j fsError
    using removeAllPaths_rejecting[of j paths e ?s2 fsError] that run unfolding ans by simp
  have iff: "r = None \<longleftrightarrow> (\<forall>i<length paths. answer i = None)"
  proof
    assume none: "r = None"
    show "\<forall>i<length paths. answer i = None"
    proof (rule ccontr)
      assume "\<not> (\<forall>i<length paths. answer i = None)"
      then have "\<exists>i<length paths. answer i \<noteq> None" by blast
      from first_rejection[OF this] obtain j where j: "j < length paths" "answer j \<noteq> None"
        "\<forall>i<j. \<not> answer i \<noteq> None" by blast
      then obtain fsError where "answer j = Some fsError" by blast
      with bad[of j fsError] j none show False by simp
    qed
  next
    assume "\<forall>i<length paths. answer i = None"
    from ok[OF this] show "r = None" by simp
  qed
  have full: "trace s' = called (length paths) @ [ParseAll]
            \<and> removeCalls (trace s') = removeCalls (trace s) @ paths" if "r = None"
  proof -
    from that iff have "\<forall>i<length paths. answer i = None" by simp
    from ok[OF this] show ?thesis
      by (simp add: called_def paths_def removeCalls_append removeCalls_removalTrace)
  qed
  have stop: "r = Some (new_Error fsError) \<and> trace s' = called (Suc j)
            \<and> removeCalls (trace s') = removeCalls (trace s) @ take (Suc j) paths"
    if "j < length paths \<and> (\<forall>i<j. answer i = None) \<and> answer j = Some fsError" for j fsError
  proof -
    from that bad[of j fsError]
    have "s' = ?s2\<lparr>trace := trace ?s2 @ removalTrace (take (Suc j) paths)\<rparr>"
      "r = Some (new_Error fsError)" by simp_all
    then show ?thesis
      by (simp add: called_def paths_def removeCalls_append removeCalls_removalTrace)
  qed
  have st: "store s' = store s"
  proof (cases "\<forall>i<length paths. answer i = None")
    case True
    from ok[OF this] show ?thesis by simp
  next
    case False
    then have "\<exists>i<length paths. answer i \<noteq> None" by blast
    from first_rejection[OF this] obtain j where j: "j < length paths" "answer j \<noteq> None"
      "\<forall>i<j. \<not> answer i \<noteq> None" by blast
    then obtain fsError where "answer j = Some fsError" by blast
    with bad[of j fsError] j show ?thesis by simp
  qed
  have reach: "paths = concat (map snd (getAllTempFolders (store s)))"
    if "finalWorld (runQueue e constructed ts) = s" for ts
  proof -
    have "\<forall>ps\<in>snd ` set (tempFolders (store constructed)). length ps = 1"
      by (simp add: constructed_def)
    from runQueue_single_folder[OF this, of e ts] that
    have "\<forall>ps\<in>set (map snd (tempFolders (store s))). length ps = 1" by simp
    from first_of_singletons[OF this] show ?thesis
      by (simp add: paths_def getAllTempFolders_def)
  qed
  from iff full stop st reach show ?thesis by blast
qed

text \<open>
  Cleanup after the first sample task. With the sample collaborators its one folder is
  removed and \<^verbatim>\<open>parseAll\<close> is called; when the removal is refused the handler throws
  and \<^verbatim>\<open>parseAll\<close> is not called.
\<close>

theorem cleanup_witness:
  "finalWorld (runQueue sample_env constructed [task1]) = after_task1
   \<and> queueEmptyHandler sample_env after_task1 =
       (after_task1\<lparr>trace := trace after_task1 @
           [Dispose, SaveInFs, PathExists sample_folder, Remove sample_folder, ParseAll]\<rparr>, None)
   \<and> map first (map snd (getAllTempFolders (store after_task1))) = [sample_folder]
   \<and> concat (map snd (getAllTempFolders (store after_task1))) = [sample_folder]
   \<and> removeCalls (trace (fst (queueEmptyHandler sample_env after_task1))) = [sample_folder]
   \<and> fs_remove remove_fails_env (trace after_task1 @ [Dispose, SaveInFs, PathExists sample_folder])
        sample_folder = Some (Error ''EBUSY'')
   \<and> queueEmptyHandler remove_fails_env after_task1 =
       (after_task1\<lparr>trace := trace after_task1 @
           [Dispose, SaveInFs, PathExists sample_folder, Remove sample_folder]\<rparr>,
        Some (new_Error (Error ''EBUSY'')))"
proof -
  have h1: "finalWorld (runQueue sample_env constructed [task1]) = after_task1"
    by (simp add: sample_defs sample_env_def after_task1_def with_folder_def after_install_def)
  have h2: "queueEmptyHandler sample_env after_task1 =
       (after_task1\<lparr>trace := trace after_task1 @
           [Dispose, SaveInFs, PathExists sample_folder, Remove sample_folder, ParseAll]\<rparr>, None)"
    by (simp add: queueEmptyHandler_def getAllTempFolders_def first_def emit_def Let_def
        after_task1_def with_folder_def sample_env_def)
  have h3: "queueEmptyHandler remove_fails_env after_task1 =
       (after_task1\<lparr>trace := trace after_task1 @
           [Dispose, SaveInFs, PathExists sample_folder, Remove sample_folder]\<rparr>,
        Some (new_Error (Error ''EBUSY'')))"
    by (simp add: queueEmptyHandler_def getAllTempFolders_def first_def emit_def Let_def
        after_task1_def with_folder_def remove_fails_env_def)
  have paths: "map first (map snd (getAllTempFolders (store after_task1))) = [sample_folder]"
    by (simp add: getAllTempFolders_def after_task1_def first_def)
  have rej: "fs_remove remove_fails_env (trace after_task1 @ [Dispose, SaveInFs, PathExists sample_folder])
        sample_folder = Some (Error ''EBUSY'')"
    by (simp add: remove_fails_env_def)
  note T = cleanup_removes_registered_folders[OF h2]
  from T[THEN conjunct2, THEN conjunct2, THEN conjunct2, THEN conjunct2, THEN spec, THEN mp, OF h1]
  have "[sample_folder] = concat (map snd (getAllTempFolders (store after_task1)))"
    unfolding paths .
  then have reg: "concat (map snd (getAllTempFolders (store after_task1))) = [sample_folder]"
    by (rule sym)
  have none: "removeCalls (trace after_task1) = []" by (simp add: after_task1_def)
  from T[THEN conjunct2, THEN conjunct1, THEN mp, OF refl, THEN conjunct2]
  have calls: "removeCalls (trace (fst (queueEmptyHandler sample_env after_task1))) = [sample_folder]"
    unfolding paths h2 fst_conv none by simp
  note F = cleanup_removes_registered_folders[OF h3]
  have pre: "0 < length (map first (map snd (getAllTempFolders (store after_task1))))
           \<and> (\<forall>i<0. fs_remove remove_fails_env
                  (trace after_task1 @ [Dispose, SaveInFs]
                     @ removalTrace (take i (map first (map snd (getAllTempFolders (store after_task1)))))
                     @ [PathExists (map first (map snd (getAllTempFolders (store after_task1))) ! i)])
                  (map first (map snd (getAllTempFolders (store after_task1))) ! i) = None)
           \<and> fs_remove remove_fails_env
                  (trace after_task1 @ [Dispose, SaveInFs]
                     @ removalTrace (take 0 (map first (map snd (getAllTempFolders (store after_task1)))))
                     @ [PathExists (map first (map snd (getAllTempFolders (store after_task1))) ! 0)])
                  (map first (map snd (getAllTempFolders (store after_task1))) ! 0) = Some (Error ''EBUSY'')"
    unfolding paths by (simp add: remove_fails_env_def)
  from F[THEN conjunct2, THEN conjunct2, THEN conjunct1, THEN spec, THEN spec, THEN mp, OF pre]
  have thrown: "Some (new_Error (Error ''EBUSY'')) = Some (new_Error (Error ''EBUSY''))"
    by simp
  from h1 h2 paths reg calls rej h3 show ?thesis by (intro conjI)
qed

end
